theory Spec2Isabelle
  imports Main "HOL-Library.Multiset" "HOL-Library.Char_ord" "HOL-Library.List_Lexorder"
    "HOL-Library.Product_Lexorder"
begin

section \<open>Topology model (class Graph)\<close>

text \<open>
  Node identifiers are Python strings.  The adjacency structure \<open>self.adj\<close> is a dict
  of dicts; Python dicts keep insertion order and that order is observable (it fixes the
  order of \<open>nodes()\<close>, of \<open>neighbors(u)\<close> and therefore the traversal order of the
  shortest-path engine), so a dict is an association list here.
\<close>

type_synonym node = string
type_synonym nbrs = "(node \<times> int) list"
type_synonym graph = "(node \<times> nbrs) list"

datatype error = KeyError | OverflowError

text \<open>\<open>d[k] = v\<close>: overwrite in place when the key exists, append otherwise.\<close>

fun dict_set :: "('k \<times> 'v) list \<Rightarrow> 'k \<Rightarrow> 'v \<Rightarrow> ('k \<times> 'v) list" where
  "dict_set [] k v = [(k, v)]"
| "dict_set ((k', v') # xs) k v =
     (if k' = k then (k, v) # xs else (k', v') # dict_set xs k v)"

text \<open>Removal of a key (\<open>del d[k]\<close> once the key is known to exist, \<open>d.pop(k, None)\<close>).\<close>

definition dict_del :: "('k \<times> 'v) list \<Rightarrow> 'k \<Rightarrow> ('k \<times> 'v) list" where
  "dict_del xs k = filter (\<lambda>kv. fst kv \<noteq> k) xs"

definition has_key :: "('k \<times> 'v) list \<Rightarrow> 'k \<Rightarrow> bool" where
  "has_key xs k = (k \<in> set (map fst xs))"

text \<open>In-place change of the inner dict stored under \<open>u\<close>.\<close>

definition adj_update :: "graph \<Rightarrow> node \<Rightarrow> (nbrs \<Rightarrow> nbrs) \<Rightarrow> graph" where
  "adj_update g u f = map (\<lambda>(k, nb). if k = u then (k, f nb) else (k, nb)) g"

definition add_node :: "graph \<Rightarrow> node \<Rightarrow> graph" where
  "add_node g n = (if has_key g n then g else g @ [(n, [])])"

fun del_back :: "graph \<Rightarrow> node \<Rightarrow> node list \<Rightarrow> error + graph" where
  "del_back g n [] = Inr g"
| "del_back g n (nbr # rest) =
     (case map_of g nbr of
        None \<Rightarrow> Inl KeyError
      | Some nb \<Rightarrow>
          if has_key nb n then del_back (adj_update g nbr (\<lambda>d. dict_del d n)) n rest
          else Inl KeyError)"

definition remove_node :: "graph \<Rightarrow> node \<Rightarrow> error + graph" where
  "remove_node g n =
     (case map_of g n of
        None \<Rightarrow> Inr g
      | Some nb \<Rightarrow>
          (case del_back g n (map fst nb) of
             Inl e \<Rightarrow> Inl e
           | Inr g' \<Rightarrow> Inr (dict_del g' n)))"

definition add_link :: "graph \<Rightarrow> node \<Rightarrow> node \<Rightarrow> int \<Rightarrow> graph" where
  "add_link g u v weight =
     (let g1 = add_node (add_node g u) v;
          g2 = adj_update g1 u (\<lambda>d. dict_set d v weight)
      in adj_update g2 v (\<lambda>d. dict_set d u weight))"

definition remove_link :: "graph \<Rightarrow> node \<Rightarrow> node \<Rightarrow> graph" where
  "remove_link g u v =
     adj_update (adj_update g u (\<lambda>d. dict_del d v)) v (\<lambda>d. dict_del d u)"

definition neighbors :: "graph \<Rightarrow> node \<Rightarrow> nbrs" where
  "neighbors g u = (case map_of g u of None \<Rightarrow> [] | Some nb \<Rightarrow> nb)"

definition nodes :: "graph \<Rightarrow> node list" where
  "nodes g = map fst g"

text \<open>\<open>adj[u][v]\<close> as a partial lookup.\<close>

definition weight_of :: "graph \<Rightarrow> node \<Rightarrow> node \<Rightarrow> int option" where
  "weight_of g u v = (case map_of g u of None \<Rightarrow> None | Some nb \<Rightarrow> map_of nb v)"

datatype topo_op =
    AddNode node
  | RemoveNode node
  | AddLink node node int
  | RemoveLink node node

fun apply_op :: "graph \<Rightarrow> topo_op \<Rightarrow> error + graph" where
  "apply_op g (AddNode n) = Inr (add_node g n)"
| "apply_op g (RemoveNode n) = remove_node g n"
| "apply_op g (AddLink u v w) = Inr (add_link g u v w)"
| "apply_op g (RemoveLink u v) = Inr (remove_link g u v)"

fun run_ops :: "graph \<Rightarrow> topo_op list \<Rightarrow> error + graph" where
  "run_ops g [] = Inr g"
| "run_ops g (x # xs) =
     (case apply_op g x of Inl e \<Rightarrow> Inl e | Inr g' \<Rightarrow> run_ops g' xs)"

definition symmetric :: "graph \<Rightarrow> bool" where
  "symmetric g = (\<forall>u v w. weight_of g u v = Some w \<longrightarrow> weight_of g v u = Some w)"

text \<open>Representation invariant of a dict of dicts: no key occurs twice.\<close>

definition dict_ok :: "graph \<Rightarrow> bool" where
  "dict_ok g = (distinct (map fst g) \<and> (\<forall>(u, nb) \<in> set g. distinct (map fst nb)))"

section \<open>Shortest-path engine\<close>

text \<open>
  Link weights are Python ints (the command interface converts them with \<open>int(...)\<close>);
  a tentative distance is an int or \<open>float('inf')\<close>.  Python compares an int with the
  float infinity exactly, so a distance is an integer or infinity.
\<close>

datatype pynum = Fin int | PInf

fun pn_less :: "pynum \<Rightarrow> pynum \<Rightarrow> bool" where
  "pn_less (Fin a) (Fin b) = (a < b)"
| "pn_less (Fin a) PInf = True"
| "pn_less PInf _ = False"

definition pn_le :: "pynum \<Rightarrow> pynum \<Rightarrow> bool" where
  "pn_le a b = (\<not> pn_less b a)"

text \<open>
  \<open>x + w\<close> for a distance \<open>x\<close> and an int \<open>w\<close>.  Two ints add exactly.  When \<open>x\<close> is the
  float infinity Python first converts \<open>w\<close> to a float, rounding to 53 bits, and raises
  \<open>OverflowError\<close> when the rounded value does not fit a double, that is from
  \<open>2^1024 - 2^970\<close> on; otherwise the sum is infinity.
\<close>

definition fits_float :: "int \<Rightarrow> bool" where
  "fits_float w = (\<bar>w\<bar> < 2 ^ 1024 - 2 ^ 970)"

fun pn_add :: "pynum \<Rightarrow> int \<Rightarrow> error + pynum" where
  "pn_add (Fin a) w = Inr (Fin (a + w))"
| "pn_add PInf w = (if fits_float w then Inr PInf else Inl OverflowError)"

type_synonym dist_map = "node \<rightharpoonup> pynum"
type_synonym prev_map = "node \<rightharpoonup> node option"
type_synonym heap = "(int \<times> node) list"
type_synonym sp_state = "dist_map \<times> prev_map \<times> heap"

text \<open>
  \<open>heapq\<close> is the standard library's binary heap.  All the engine observes of it is that
  \<open>heappop\<close> removes and returns the least entry, tuples \<open>(d, u)\<close> being compared
  lexicographically; the heap is therefore kept as the list of its entries.
\<close>

definition heappush :: "heap \<Rightarrow> int \<times> node \<Rightarrow> heap" where
  "heappush h x = h @ [x]"

fun heappop :: "heap \<Rightarrow> ((int \<times> node) \<times> heap) option" where
  "heappop [] = None"
| "heappop (x # xs) = (let m = fold min xs x in Some (m, remove1 m (x # xs)))"

text \<open>The \<open>for v, w in self.topo.neighbors(u)\<close> loop; \<open>dist[v]\<close> raises on a missing key.\<close>

fun relax_all :: "int \<Rightarrow> node \<Rightarrow> nbrs \<Rightarrow> sp_state \<Rightarrow> error + sp_state" where
  "relax_all d u [] s = Inr s"
| "relax_all d u ((v, w) # rest) (dist, prev, pq) =
     (let nd = d + w in
      case dist v of
        None \<Rightarrow> Inl KeyError
      | Some dv \<Rightarrow>
          if pn_less (Fin nd) dv
          then relax_all d u rest
                 (dist(v \<mapsto> Fin nd), prev(v \<mapsto> Some u), heappush pq (nd, v))
          else relax_all d u rest (dist, prev, pq))"

text \<open>The \<open>while pq\<close> loop.  It need not terminate (negative weights), hence the option.\<close>

partial_function (option) dijkstra_loop ::
  "graph \<Rightarrow> sp_state \<Rightarrow> (error + dist_map \<times> prev_map) option" where
  "dijkstra_loop g s =
     (case s of (dist, prev, pq) \<Rightarrow>
        (case heappop pq of
           None \<Rightarrow> Some (Inr (dist, prev))
         | Some ((d, u), pq') \<Rightarrow>
             (case dist u of
                None \<Rightarrow> Some (Inl KeyError)
              | Some du \<Rightarrow>
                  if pn_less du (Fin d) then dijkstra_loop g (dist, prev, pq')
                  else (case relax_all d u (neighbors g u) (dist, prev, pq') of
                          Inl e \<Rightarrow> Some (Inl e)
                        | Inr s' \<Rightarrow> dijkstra_loop g s'))))"

declare dijkstra_loop.simps [code]

definition init_dist :: "graph \<Rightarrow> node \<Rightarrow> dist_map" where
  "init_dist g src = (map_of (map (\<lambda>n. (n, PInf)) (nodes g)))(src \<mapsto> Fin 0)"

definition init_prev :: "graph \<Rightarrow> prev_map" where
  "init_prev g = map_of (map (\<lambda>n. (n, None)) (nodes g))"

definition compute_shortest_paths ::
  "graph \<Rightarrow> node \<Rightarrow> (error + dist_map \<times> prev_map) option" where
  "compute_shortest_paths g src =
     dijkstra_loop g (init_dist g src, init_prev g, [(0, src)])"

text \<open>\<open>dist.get(k, float('inf'))\<close>\<close>

definition dist_get :: "dist_map \<Rightarrow> node \<Rightarrow> pynum" where
  "dist_get dist k = (case dist k of None \<Rightarrow> PInf | Some x \<Rightarrow> x)"

text \<open>The \<open>for v, w in self.topo.neighbors(sw)\<close> loop with its accumulator \<open>nxt\<close>.\<close>

fun next_hops_loop :: "dist_map \<Rightarrow> node \<Rightarrow> nbrs \<Rightarrow> node list \<Rightarrow> error + node list" where
  "next_hops_loop dist dst [] nxt = Inr nxt"
| "next_hops_loop dist dst ((v, w) # rest) nxt =
     (case pn_add (dist_get dist v) w of
        Inl e \<Rightarrow> Inl e
      | Inr s \<Rightarrow>
          if s = dist_get dist dst then next_hops_loop dist dst rest (nxt @ [v])
          else next_hops_loop dist dst rest nxt)"

definition compute_equal_cost_next_hops ::
  "graph \<Rightarrow> node \<Rightarrow> node \<Rightarrow> dist_map \<Rightarrow> error + node list" where
  "compute_equal_cost_next_hops g sw dst dist =
     next_hops_loop dist dst (neighbors g sw) []"

text \<open>The \<open>while cur is not None\<close> loop of \<open>compute_path\<close>; \<open>prev[cur]\<close> raises on a
  missing key, and a cycle in \<open>prev\<close> would make the loop run forever.\<close>

partial_function (option) walk_back ::
  "prev_map \<Rightarrow> node option \<Rightarrow> node list \<Rightarrow> (error + node list) option" where
  "walk_back prev cur path =
     (case cur of
        None \<Rightarrow> Some (Inr path)
      | Some c \<Rightarrow>
          (case prev c of
             None \<Rightarrow> Some (Inl KeyError)
           | Some nxt \<Rightarrow> walk_back prev nxt (path @ [c])))"

declare walk_back.simps [code]

text \<open>The result is an error, \<open>None\<close> (unreachable) or a path, if the call returns.\<close>

definition compute_path ::
  "graph \<Rightarrow> node \<Rightarrow> node \<Rightarrow> (error + node list option) option" where
  "compute_path g src dst =
     (case compute_shortest_paths g src of
        None \<Rightarrow> None
      | Some (Inl e) \<Rightarrow> Some (Inl e)
      | Some (Inr (dist, prev)) \<Rightarrow>
          (case dist dst of
             None \<Rightarrow> Some (Inl KeyError)
           | Some x \<Rightarrow>
               if x = PInf then Some (Inr None)
               else (case walk_back prev (Some dst) [] of
                       None \<Rightarrow> None
                     | Some (Inl e) \<Rightarrow> Some (Inl e)
                     | Some (Inr path) \<Rightarrow> Some (Inr (Some (rev path))))))"

section \<open>Flow-table synthesizer\<close>

text \<open>
  \<open>random.shuffle\<close> is the standard library's Fisher-Yates shuffle:
  \<^verbatim>\<open>for i in reversed(range(1, len(x))): j = randbelow(i + 1); x[i], x[j] = x[j], x[i]\<close>.
  The generator is a parameter: a sequence of raw draws and the position reached in it.
\<close>

type_synonym rng = "(nat \<Rightarrow> nat) \<times> nat"

definition randbelow :: "rng \<Rightarrow> nat \<Rightarrow> nat \<times> rng" where
  "randbelow r n = (case r of (f, k) \<Rightarrow> (f k mod n, (f, Suc k)))"

fun shuffle_loop :: "nat \<Rightarrow> 'a list \<Rightarrow> rng \<Rightarrow> 'a list \<times> rng" where
  "shuffle_loop 0 xs r = (xs, r)"
| "shuffle_loop (Suc k) xs r =
     (case randbelow r (Suc k + 1) of
        (j, r') \<Rightarrow> shuffle_loop k (xs[Suc k := xs ! j, j := xs ! Suc k]) r')"

definition shuffle :: "'a list \<Rightarrow> rng \<Rightarrow> 'a list \<times> rng" where
  "shuffle xs r = shuffle_loop (length xs - 1) xs r"

datatype priority = Normal | High

record entry =
  match_dst :: node
  action :: "node list"
  priority :: priority
  backup :: "node list option"

type_synonym flow = "node \<times> node"
type_synonym flow_tables = "(node \<times> entry list) list"

record controller =
  topo :: graph
  flow_tables :: flow_tables
  active_flows :: "flow list"
  critical_flows :: "flow set"

text \<open>First loop of \<open>install_flows\<close>: one shortest-path run per switch.\<close>

fun all_dists :: "graph \<Rightarrow> node list \<Rightarrow> (error + (node \<times> dist_map) list) option" where
  "all_dists g [] = Some (Inr [])"
| "all_dists g (sw # rest) =
     (case compute_shortest_paths g sw of
        None \<Rightarrow> None
      | Some (Inl e) \<Rightarrow> Some (Inl e)
      | Some (Inr (dist, _)) \<Rightarrow>
          (case all_dists g rest of
             None \<Rightarrow> None
           | Some (Inl e) \<Rightarrow> Some (Inl e)
           | Some (Inr ds) \<Rightarrow> Some (Inr ((sw, dist) # ds))))"

text \<open>The two \<open>for src, d in self.active_flows\<close> loops.\<close>

definition set_priority :: "flow list \<Rightarrow> node \<Rightarrow> entry \<Rightarrow> entry" where
  "set_priority flows dst e =
     fold (\<lambda>(src, d) e. if d = dst then e\<lparr>priority := High\<rparr> else e) flows e"

definition set_backup :: "flow list \<Rightarrow> flow set \<Rightarrow> node list \<Rightarrow> entry \<Rightarrow> entry" where
  "set_backup flows crit primaries e =
     fold (\<lambda>(src, d) e.
             if (src, d) \<in> crit \<and> length primaries > 1
             then e\<lparr>backup := Some (drop 1 primaries)\<rparr> else e) flows e"

definition build_entry ::
  "graph \<Rightarrow> flow list \<Rightarrow> flow set \<Rightarrow> node \<Rightarrow> dist_map \<Rightarrow> node \<Rightarrow> rng
     \<Rightarrow> error + entry \<times> rng" where
  "build_entry g flows crit sw dist dst r =
     (case compute_equal_cost_next_hops g sw dst dist of
        Inl err \<Rightarrow> Inl err
      | Inr hops \<Rightarrow>
          (case shuffle hops r of
             (primaries, r') \<Rightarrow>
               Inr (set_backup flows crit primaries
                      (set_priority flows dst
                         \<lparr>match_dst = dst, action = primaries, priority = Normal,
                          backup = None\<rparr>),
                    r')))"

text \<open>The inner \<open>for dst in self.topo.nodes()\<close> loop for one switch.\<close>

fun switch_entries ::
  "graph \<Rightarrow> flow list \<Rightarrow> flow set \<Rightarrow> node \<Rightarrow> dist_map \<Rightarrow> node list \<Rightarrow> rng
     \<Rightarrow> error + entry list \<times> rng" where
  "switch_entries g flows crit sw dist [] r = Inr ([], r)"
| "switch_entries g flows crit sw dist (dst # rest) r =
     (if dst = sw then switch_entries g flows crit sw dist rest r
      else (case dist dst of
              None \<Rightarrow> Inl KeyError
            | Some x \<Rightarrow>
                if x = PInf then switch_entries g flows crit sw dist rest r
                else (case build_entry g flows crit sw dist dst r of
                        Inl err \<Rightarrow> Inl err
                      | Inr (e, r') \<Rightarrow>
                          (case switch_entries g flows crit sw dist rest r' of
                             Inl err \<Rightarrow> Inl err
                           | Inr (es, r'') \<Rightarrow> Inr (e # es, r'')))))"

text \<open>The outer \<open>for sw in self.topo.nodes()\<close> loop; \<open>all_dist[sw]\<close> raises on a missing key.\<close>

fun build_tables ::
  "graph \<Rightarrow> flow list \<Rightarrow> flow set \<Rightarrow> (node \<times> dist_map) list \<Rightarrow> node list \<Rightarrow> rng
     \<Rightarrow> error + flow_tables \<times> rng" where
  "build_tables g flows crit ad [] r = Inr ([], r)"
| "build_tables g flows crit ad (sw # rest) r =
     (case map_of ad sw of
        None \<Rightarrow> Inl KeyError
      | Some dist \<Rightarrow>
          (case switch_entries g flows crit sw dist (nodes g) r of
             Inl err \<Rightarrow> Inl err
           | Inr (es, r') \<Rightarrow>
               (case build_tables g flows crit ad rest r' of
                  Inl err \<Rightarrow> Inl err
                | Inr (ts, r'') \<Rightarrow> Inr ((sw, es) # ts, r''))))"

definition install_flows :: "controller \<Rightarrow> rng \<Rightarrow> (error + controller \<times> rng) option" where
  "install_flows c r =
     (case all_dists (topo c) (nodes (topo c)) of
        None \<Rightarrow> None
      | Some (Inl e) \<Rightarrow> Some (Inl e)
      | Some (Inr ad) \<Rightarrow>
          (case build_tables (topo c) (active_flows c) (critical_flows c) ad
                  (nodes (topo c)) r of
             Inl e \<Rightarrow> Some (Inl e)
           | Inr (ts, r') \<Rightarrow> Some (Inr (c\<lparr>flow_tables := ts\<rparr>, r'))))"

section \<open>Reconfiguration coordinator\<close>

definition new_controller :: "graph \<Rightarrow> rng \<Rightarrow> (error + controller \<times> rng) option" where
  "new_controller topology r =
     install_flows \<lparr>topo = topology, flow_tables = [], active_flows = [],
                    critical_flows = {(''H2'', ''S4'')}\<rparr> r"


text \<open>The \<open>inject_flow\<close> command: append to the active flows, then rebuild.\<close>

definition inject_flow ::
  "controller \<Rightarrow> node \<Rightarrow> node \<Rightarrow> rng \<Rightarrow> (error + controller \<times> rng) option" where
  "inject_flow c src dst r =
     install_flows (c\<lparr>active_flows := active_flows c @ [(src, dst)]\<rparr>) r"

text \<open>The entries of switch \<open>sw\<close> that match destination \<open>dst\<close>.\<close>

definition entries_for :: "flow_tables \<Rightarrow> node \<Rightarrow> node \<Rightarrow> entry list" where
  "entries_for ts sw dst =
     (case map_of ts sw of
        None \<Rightarrow> []
      | Some es \<Rightarrow> filter (\<lambda>e. match_dst e = dst) es)"

text \<open>
  Commands run one after another; a command that raises, or does not return, ends the run.
\<close>

definition then_do ::
  "(error + controller \<times> rng) option \<Rightarrow>
   (controller \<Rightarrow> rng \<Rightarrow> (error + controller \<times> rng) option) \<Rightarrow>
   (error + controller \<times> rng) option" where
  "then_do m f =
     (case m of None \<Rightarrow> None | Some (Inl e) \<Rightarrow> Some (Inl e) | Some (Inr (c, r)) \<Rightarrow> f c r)"

definition result_of :: "(error + controller \<times> rng) option \<Rightarrow> controller option" where
  "result_of m = (case m of Some (Inr (c, r)) \<Rightarrow> Some c | _ \<Rightarrow> None)"

section \<open>Example topologies\<close>

text \<open>The five switch links of the command interface's start-up topology.\<close>

definition topo_switches :: graph where
  "topo_switches =
     add_link (add_link (add_link (add_link (add_link []
       ''S1'' ''S2'' 1) ''S1'' ''S3'' 1) ''S2'' ''S4'' 1) ''S3'' ''S4'' 1) ''S1'' ''S4'' 5"

text \<open>The full start-up topology: the switches plus the hosts H1 and H2.\<close>

definition topo_main :: graph where
  "topo_main =
     add_link (add_link (add_node (add_node topo_switches ''H1'') ''H2'')
       ''H1'' ''S1'' 1) ''H2'' ''S2'' 1"



definition critical_flow_scenario :: "rng \<Rightarrow> (error + controller \<times> rng) option" where
  "critical_flow_scenario r =
     then_do (new_controller topo_main r) (\<lambda>c. inject_flow c ''H2'' ''S4'')"

text \<open>A single link whose weight is too large for a float.\<close>

definition topo_heavy :: graph where
  "topo_heavy = add_link [] ''A'' ''B'' (10 ^ 400)"

text \<open>Two separate links and an isolated node.\<close>

definition topo_islands :: graph where
  "topo_islands = add_node (add_link (add_link [] ''A'' ''B'' 1) ''C'' ''D'' 1) ''E''"

text \<open>A short run of topology operations.\<close>

definition ops_example :: "topo_op list" where
  "ops_example =
     [AddLink ''S1'' ''S2'' 1, AddLink ''S2'' ''S3'' 2, AddNode ''H1'', RemoveNode ''H1'',
      RemoveLink ''S9'' ''S1'']"

definition rng0 :: rng where
  "rng0 = (\<lambda>_. 0, 0)"

text \<open>A controller on the start-up topology with the flow H1 to H2 active.\<close>

definition ctrl_example :: controller where
  "ctrl_example = \<lparr>topo = topo_main, flow_tables = [], active_flows = [(''H1'', ''H2'')],
                    critical_flows = {(''H2'', ''S4'')}\<rparr>"

section \<open>Well-formed topologies, paths and shortest distances\<close>

text \<open>
  A topology of the data model: a dict of dicts (no key twice), every neighbour is itself a
  node, and weights are non-negative.
\<close>

definition graph_ok :: "graph \<Rightarrow> bool" where
  "graph_ok g =
     (distinct (map fst g) \<and>
      list_all (\<lambda>(u, nb). distinct (map fst nb) \<and>
                  list_all (\<lambda>(v, w). has_key g v \<and> 0 \<le> w) nb) g)"

text \<open>What the topology operations maintain: a dict of dicts that is symmetric.\<close>

definition topo_inv :: "graph \<Rightarrow> bool" where
  "topo_inv g = (dict_ok g \<and> symmetric g)"

text \<open>Operations and topologies whose link weights are non-negative.\<close>

fun op_ok :: "topo_op \<Rightarrow> bool" where
  "op_ok (AddLink u v w) = (0 \<le> w)"
| "op_ok _ = True"

definition nonneg :: "graph \<Rightarrow> bool" where
  "nonneg g = (\<forall>u v w. weight_of g u v = Some w \<longrightarrow> 0 \<le> w)"

text \<open>Addition in the integers extended by infinity, for stating bounds on distances.\<close>

fun ext_add :: "pynum \<Rightarrow> int \<Rightarrow> pynum" where
  "ext_add (Fin a) w = Fin (a + w)"
| "ext_add PInf w = PInf"

text \<open>
  A path is a non-empty node sequence whose consecutive pairs are links; its weight is the
  sum of the traversed link weights.
\<close>

fun valid_path :: "graph \<Rightarrow> node list \<Rightarrow> bool" where
  "valid_path g [] = False"
| "valid_path g [x] = True"
| "valid_path g (x # y # rest) = (weight_of g x y \<noteq> None \<and> valid_path g (y # rest))"

fun path_weight :: "graph \<Rightarrow> node list \<Rightarrow> int" where
  "path_weight g (x # y # rest) =
     (case weight_of g x y of None \<Rightarrow> 0 | Some w \<Rightarrow> w) + path_weight g (y # rest)"
| "path_weight g _ = 0"

definition path_between :: "graph \<Rightarrow> node \<Rightarrow> node \<Rightarrow> node list \<Rightarrow> bool" where
  "path_between g s t p = (valid_path g p \<and> hd p = s \<and> last p = t)"

definition shortest_dist :: "graph \<Rightarrow> node \<Rightarrow> node \<Rightarrow> pynum \<Rightarrow> bool" where
  "shortest_dist g s t x =
     (case x of
        PInf \<Rightarrow> \<not> (\<exists>p. path_between g s t p)
      | Fin k \<Rightarrow> (\<exists>p. path_between g s t p \<and> path_weight g p = k) \<and>
                 (\<forall>p. path_between g s t p \<longrightarrow> k \<le> path_weight g p))"

section \<open>Invariants of the shortest-path loop\<close>

text \<open>
  \<open>reach prev src v\<close>: following the predecessor map from \<open>v\<close> arrives at \<open>src\<close>.
\<close>

inductive reach :: "prev_map \<Rightarrow> node \<Rightarrow> node \<Rightarrow> bool" for prev src where
  reach_src: "reach prev src src"
| reach_step: "prev v = Some (Some u) \<Longrightarrow> reach prev src u \<Longrightarrow> reach prev src v"

text \<open>
  Facts that hold whenever the \<open>while\<close> loop tests its condition: the keys of the two
  maps, non-negative tentative distances, heap entries that bound the distance of their node
  from above, and a predecessor map that is a tree rooted at the source.
\<close>

definition sp_base :: "graph \<Rightarrow> node \<Rightarrow> dist_map \<Rightarrow> prev_map \<Rightarrow> heap \<Rightarrow> bool" where
  "sp_base g src dist prev pq =
     (dom dist = set (nodes g) \<union> {src} \<and> dom prev = set (nodes g) \<and>
      dist src = Some (Fin 0) \<and>
      (\<forall>v k. dist v = Some (Fin k) \<longrightarrow> 0 \<le> k) \<and>
      (\<forall>d u. (d, u) \<in> set pq \<longrightarrow> (\<exists>k. dist u = Some (Fin k) \<and> k \<le> d)) \<and>
      (\<forall>u. prev src \<noteq> Some (Some u)) \<and>
      (\<forall>v k. dist v = Some (Fin k) \<longrightarrow> v \<noteq> src \<longrightarrow> (\<exists>u. prev v = Some (Some u))) \<and>
      (\<forall>v u. prev v = Some (Some u) \<longrightarrow> reach prev src u))"

text \<open>A predecessor explains the distance of its successor exactly.\<close>

definition sp_tree :: "graph \<Rightarrow> dist_map \<Rightarrow> prev_map \<Rightarrow> bool" where
  "sp_tree g dist prev =
     (\<forall>v u. prev v = Some (Some u) \<longrightarrow>
        (\<exists>ku w. dist u = Some (Fin ku) \<and> weight_of g u v = Some w \<and>
                dist v = Some (Fin (ku + w))))"

text \<open>Nodes used as predecessors lie below every heap entry, so they are never improved again.\<close>

definition sp_settled :: "dist_map \<Rightarrow> prev_map \<Rightarrow> heap \<Rightarrow> bool" where
  "sp_settled dist prev pq =
     (\<forall>v u ku d x. prev v = Some (Some u) \<longrightarrow> dist u = Some (Fin ku) \<longrightarrow>
        (d, x) \<in> set pq \<longrightarrow> ku \<le> d)"

definition sp_low :: "dist_map \<Rightarrow> prev_map \<Rightarrow> int \<Rightarrow> bool" where
  "sp_low dist prev d =
     (\<forall>v u ku. prev v = Some (Some u) \<longrightarrow> dist u = Some (Fin ku) \<longrightarrow> ku \<le> d)"

text \<open>
  A node with a finite distance is either still queued with that distance or all its links
  are relaxed; while node \<open>u\<close> is being expanded its links in \<open>todo\<close> are exempt.
\<close>

definition sp_relaxed :: "graph \<Rightarrow> dist_map \<Rightarrow> heap \<Rightarrow> node \<Rightarrow> nbrs \<Rightarrow> bool" where
  "sp_relaxed g dist pq u todo =
     (\<forall>x k. dist x = Some (Fin k) \<longrightarrow>
        (k, x) \<in> set pq \<or>
        (\<forall>v w. weight_of g x v = Some w \<longrightarrow>
           (x = u \<and> (v, w) \<in> set todo) \<or> (\<exists>k'. dist v = Some (Fin k') \<and> k' \<le> k + w)))"

definition sp_inv :: "graph \<Rightarrow> node \<Rightarrow> sp_state \<Rightarrow> bool" where
  "sp_inv g src s =
     (case s of (dist, prev, pq) \<Rightarrow>
        sp_base g src dist prev pq \<and> sp_tree g dist prev \<and> sp_settled dist prev pq \<and>
        sp_relaxed g dist pq src [])"

definition sp_mid :: "graph \<Rightarrow> node \<Rightarrow> int \<Rightarrow> node \<Rightarrow> nbrs \<Rightarrow> sp_state \<Rightarrow> bool" where
  "sp_mid g src d u todo s =
     (case s of (dist, prev, pq) \<Rightarrow>
        sp_base g src dist prev pq \<and> sp_tree g dist prev \<and> sp_low dist prev d \<and>
        (\<forall>d' x. (d', x) \<in> set pq \<longrightarrow> d \<le> d') \<and> dist u = Some (Fin d) \<and>
        set todo \<subseteq> set (neighbors g u) \<and> sp_relaxed g dist pq u todo)"

text \<open>Termination: every improvement lowers the potential, every pop shortens the heap.\<close>

definition sp_pot :: "graph \<Rightarrow> node \<Rightarrow> dist_map \<Rightarrow> nat \<times> nat" where
  "sp_pot g src dist =
     (\<Sum>v \<in> set (nodes g) \<union> {src}. if dist v = Some PInf then 1 else 0,
      \<Sum>v \<in> set (nodes g) \<union> {src}. case dist v of Some (Fin k) \<Rightarrow> nat k | _ \<Rightarrow> 0)"

definition pot_less :: "((nat \<times> nat) \<times> (nat \<times> nat)) set" where
  "pot_less = less_than <*lex*> less_than"

definition sp_rel :: "graph \<Rightarrow> node \<Rightarrow> (sp_state \<times> sp_state) set" where
  "sp_rel g src =
     inv_image (pot_less <*lex*> less_than) (\<lambda>s. (sp_pot g src (fst s), length (snd (snd s))))"

section \<open>What a rebuilt flow table consists of\<close>

text \<open>The distance map of the shortest-path run with source \<open>sw\<close>.\<close>

definition sp_dist :: "graph \<Rightarrow> node \<Rightarrow> dist_map" where
  "sp_dist g sw =
     (case compute_shortest_paths g sw of Some (Inr (dist, prev)) \<Rightarrow> dist | _ \<Rightarrow> Map.empty)"

text \<open>The destinations for which switch \<open>sw\<close> gets an entry, in node order.\<close>

definition dests :: "graph \<Rightarrow> node \<Rightarrow> node list" where
  "dests g sw = filter (\<lambda>dst. dst \<noteq> sw \<and> sp_dist g sw dst \<noteq> Some PInf) (nodes g)"

text \<open>
  \<open>e\<close> is an entry that \<open>build_entry\<close> makes for \<open>(sw, dst)\<close> from the map \<open>dist\<close>,
  whatever the shuffle draws; \<open>entry_of\<close> takes the map computed with source \<open>sw\<close>.
\<close>

definition built ::
  "graph \<Rightarrow> flow list \<Rightarrow> flow set \<Rightarrow> node \<Rightarrow> dist_map \<Rightarrow> entry \<Rightarrow> node \<Rightarrow> bool" where
  "built g flows crit sw dist e dst =
     (\<exists>rr r'. build_entry g flows crit sw dist dst rr = Inr (e, r'))"

definition entry_of :: "graph \<Rightarrow> flow list \<Rightarrow> flow set \<Rightarrow> node \<Rightarrow> entry \<Rightarrow> node \<Rightarrow> bool" where
  "entry_of g flows crit sw e dst = built g flows crit sw (sp_dist g sw) e dst"

text \<open>No neighbour of \<open>sw\<close> is at infinite (or missing) distance in the map.\<close>

definition nbrs_finite :: "graph \<Rightarrow> node \<Rightarrow> dist_map \<Rightarrow> bool" where
  "nbrs_finite g sw dist = (\<forall>(v, w) \<in> set (neighbors g sw). dist_get dist v \<noteq> PInf)"

section \<open>Correctness of the topology operations\<close>

lemma map_of_dict_set: "map_of (dict_set d k v) k' = (if k' = k then Some v else map_of d k')"
  by (induction d k v rule: dict_set.induct) auto

lemma map_of_dict_del: "map_of (dict_del d k) k' = (if k' = k then None else map_of d k')"
  by (induction d) (auto simp: dict_del_def)

lemma keys_dict_set:
  "map fst (dict_set d k v) = (if k \<in> set (map fst d) then map fst d else map fst d @ [k])"
  by (induction d k v rule: dict_set.induct) auto

lemma distinct_dict_set: "distinct (map fst d) \<Longrightarrow> distinct (map fst (dict_set d k v))"
  by (simp add: keys_dict_set)

lemma keys_dict_del: "map fst (dict_del d k) = filter (\<lambda>x. x \<noteq> k) (map fst d)"
  by (induction d) (auto simp: dict_del_def)

lemma distinct_dict_del: "distinct (map fst d) \<Longrightarrow> distinct (map fst (dict_del d k))"
  by (simp add: keys_dict_del)

lemma has_key_map_of: "has_key d k \<longleftrightarrow> map_of d k \<noteq> None"
  by (simp add: has_key_def map_of_eq_None_iff)

lemma keys_adj_update: "map fst (adj_update g u f) = map fst g"
  by (induction g) (auto simp: adj_update_def)

lemma map_of_adj_update:
  "map_of (adj_update g u f) k = (if k = u then map_option f (map_of g u) else map_of g k)"
  by (induction g) (auto simp: adj_update_def)

lemma inner_adj_update:
  assumes "\<forall>(k, nb) \<in> set g. distinct (map fst nb)"
    and "\<And>nb. distinct (map fst nb) \<Longrightarrow> distinct (map fst (f nb))"
  shows "\<forall>(k, nb) \<in> set (adj_update g u f). distinct (map fst nb)"
  using assms by (fastforce simp: adj_update_def split: if_splits)

lemma dict_ok_adj_update:
  assumes "dict_ok g" "\<And>nb. distinct (map fst nb) \<Longrightarrow> distinct (map fst (f nb))"
  shows "dict_ok (adj_update g u f)"
  using assms inner_adj_update[of g f u] by (simp add: dict_ok_def keys_adj_update)

lemma key_adj_update: "(map_of (adj_update g u f) k = None) = (map_of g k = None)"
  by (simp add: map_of_adj_update)

lemma weight_of_adj_set:
  "weight_of (adj_update g u (\<lambda>d. dict_set d v w)) a b =
     (if a = u \<and> b = v \<and> map_of g u \<noteq> None then Some w else weight_of g a b)"
  by (cases "map_of g u") (auto simp: weight_of_def map_of_adj_update map_of_dict_set)

lemma weight_of_adj_del:
  "weight_of (adj_update g u (\<lambda>d. dict_del d v)) a b =
     (if a = u \<and> b = v then None else weight_of g a b)"
  by (cases "map_of g u") (auto simp: weight_of_def map_of_adj_update map_of_dict_del)

lemma map_of_add_node:
  "map_of (add_node g n) k = (if k = n \<and> map_of g n = None then Some [] else map_of g k)"
  by (auto simp: add_node_def has_key_map_of map_add_def split: option.splits)

lemma weight_of_add_node: "weight_of (add_node g n) a b = weight_of g a b"
proof (cases "a = n \<and> map_of g n = None")
  case True
  then show ?thesis by (simp add: weight_of_def map_of_add_node)
next
  case False
  then have "map_of (add_node g n) a = map_of g a" by (simp add: map_of_add_node)
  then show ?thesis by (simp add: weight_of_def)
qed

lemma dict_ok_add_node: "dict_ok g \<Longrightarrow> dict_ok (add_node g n)"
  by (auto simp: dict_ok_def add_node_def has_key_def)

lemma symmetric_add_node: "symmetric g \<Longrightarrow> symmetric (add_node g n)"
  unfolding symmetric_def weight_of_add_node .

lemma weight_of_adj_set_key:
  assumes "map_of g u \<noteq> None"
  shows "weight_of (adj_update g u (\<lambda>d. dict_set d v w)) a b =
           (if a = u \<and> b = v then Some w else weight_of g a b)"
  unfolding weight_of_adj_set using assms by simp

lemma if_pair_set:
  "(if P then Some w else if Q then Some w else (x::'a option)) =
   (if Q \<or> P then Some w else x)"
  by simp

lemma weight_of_add_link:
  "weight_of (add_link g u v w) a b =
     (if (a = u \<and> b = v) \<or> (a = v \<and> b = u) then Some w else weight_of g a b)"
proof -
  let ?g1 = "add_node (add_node g u) v"
  let ?g2 = "adj_update ?g1 u (\<lambda>d. dict_set d v w)"
  have u: "map_of ?g1 u \<noteq> None" unfolding map_of_add_node by simp
  have v: "map_of ?g1 v \<noteq> None" unfolding map_of_add_node by simp
  have v2: "map_of ?g2 v \<noteq> None" unfolding key_adj_update by (rule v)
  have s2: "weight_of ?g2 a b = (if a = u \<and> b = v then Some w else weight_of g a b)"
    for a b
    using weight_of_adj_set_key[OF u, of v w a b] unfolding weight_of_add_node .
  have "weight_of (adj_update ?g2 v (\<lambda>d. dict_set d u w)) a b =
          (if a = v \<and> b = u then Some w else weight_of ?g2 a b)"
    by (rule weight_of_adj_set_key[OF v2])
  also have "\<dots> = (if (a = u \<and> b = v) \<or> (a = v \<and> b = u) then Some w else weight_of g a b)"
    unfolding s2 if_pair_set ..
  finally show ?thesis unfolding add_link_def Let_def .
qed

lemma if_pair_del:
  "(if P then None else if Q then None else (x::'a option)) = (if Q \<or> P then None else x)"
  by simp

lemma weight_of_remove_link:
  "weight_of (remove_link g u v) a b =
     (if (a = u \<and> b = v) \<or> (a = v \<and> b = u) then None else weight_of g a b)"
  unfolding remove_link_def weight_of_adj_del if_pair_del ..

lemma topo_inv_add_node: "topo_inv g \<Longrightarrow> topo_inv (add_node g n)"
  unfolding topo_inv_def using dict_ok_add_node symmetric_add_node by blast

lemma symmetric_add_link:
  assumes "symmetric g"
  shows "symmetric (add_link g u v w)"
  unfolding symmetric_def
proof (intro allI impI)
  fix a b x
  let ?P = "(a = u \<and> b = v) \<or> (a = v \<and> b = u)"
  let ?Q = "(b = u \<and> a = v) \<or> (b = v \<and> a = u)"
  assume e: "weight_of (add_link g u v w) a b = Some x"
  have A: "weight_of (add_link g u v w) a b = (if ?P then Some w else weight_of g a b)"
    by (rule weight_of_add_link)
  have B: "weight_of (add_link g u v w) b a = (if ?Q then Some w else weight_of g b a)"
    by (rule weight_of_add_link)
  show "weight_of (add_link g u v w) b a = Some x"
  proof (cases ?P)
    case True
    then have q: ?Q by blast
    from e have "Some w = Some x" unfolding A if_P[OF True] .
    then show ?thesis unfolding B if_P[OF q] .
  next
    case False
    then have q: "\<not> ?Q" by blast
    from e have "weight_of g a b = Some x" unfolding A if_not_P[OF False] .
    with assms have "weight_of g b a = Some x" unfolding symmetric_def by blast
    then show ?thesis unfolding B if_not_P[OF q] .
  qed
qed

lemma symmetric_remove_link:
  assumes "symmetric g"
  shows "symmetric (remove_link g u v)"
  unfolding symmetric_def
proof (intro allI impI)
  fix a b x
  let ?P = "(a = u \<and> b = v) \<or> (a = v \<and> b = u)"
  let ?Q = "(b = u \<and> a = v) \<or> (b = v \<and> a = u)"
  assume e: "weight_of (remove_link g u v) a b = Some x"
  have A: "weight_of (remove_link g u v) a b = (if ?P then None else weight_of g a b)"
    by (rule weight_of_remove_link)
  have B: "weight_of (remove_link g u v) b a = (if ?Q then None else weight_of g b a)"
    by (rule weight_of_remove_link)
  show "weight_of (remove_link g u v) b a = Some x"
  proof (cases ?P)
    case True
    from e have "None = Some x" unfolding A if_P[OF True] .
    then show ?thesis by simp
  next
    case False
    then have q: "\<not> ?Q" by blast
    from e have "weight_of g a b = Some x" unfolding A if_not_P[OF False] .
    with assms have "weight_of g b a = Some x" unfolding symmetric_def by blast
    then show ?thesis unfolding B if_not_P[OF q] .
  qed
qed

lemma dict_ok_add_link: "dict_ok g \<Longrightarrow> dict_ok (add_link g u v w)"
  unfolding add_link_def Let_def
  by (intro dict_ok_adj_update distinct_dict_set dict_ok_add_node)

lemma dict_ok_remove_link: "dict_ok g \<Longrightarrow> dict_ok (remove_link g u v)"
  unfolding remove_link_def
  by (intro dict_ok_adj_update distinct_dict_del)

lemma topo_inv_add_link: "topo_inv g \<Longrightarrow> topo_inv (add_link g u v w)"
  unfolding topo_inv_def using dict_ok_add_link symmetric_add_link by blast

lemma topo_inv_remove_link: "topo_inv g \<Longrightarrow> topo_inv (remove_link g u v)"
  unfolding topo_inv_def using dict_ok_remove_link symmetric_remove_link by blast

lemma weight_of_has_key:
  "weight_of g k n \<noteq> None \<Longrightarrow> \<exists>nb. map_of g k = Some nb \<and> has_key nb n"
  by (cases "map_of g k") (simp_all add: weight_of_def has_key_map_of)

lemma del_back_ok:
  "distinct ks \<Longrightarrow> \<forall>k \<in> set ks. weight_of g k n \<noteq> None \<Longrightarrow> dict_ok g \<Longrightarrow>
   \<exists>g'. del_back g n ks = Inr g' \<and> map fst g' = map fst g \<and> dict_ok g' \<and>
        (\<forall>a b. weight_of g' a b = (if b = n \<and> a \<in> set ks then None else weight_of g a b))"
proof (induction ks arbitrary: g)
  case Nil
  then show ?case by simp
next
  case (Cons k ks)
  let ?g1 = "adj_update g k (\<lambda>d. dict_del d n)"
  from Cons.prems(2) have "weight_of g k n \<noteq> None" by simp
  from weight_of_has_key[OF this] obtain nb where nb: "map_of g k = Some nb" "has_key nb n"
    by blast
  then have step: "del_back g n (k # ks) = del_back ?g1 n ks" by simp
  have w1: "weight_of ?g1 a b = (if a = k \<and> b = n then None else weight_of g a b)" for a b
    by (rule weight_of_adj_del)
  from Cons.prems(1) have d: "distinct ks" and kn: "k \<notin> set ks" by simp_all
  have p: "\<forall>k' \<in> set ks. weight_of ?g1 k' n \<noteq> None"
  proof
    fix k' assume k': "k' \<in> set ks"
    with kn have "k' \<noteq> k" by blast
    then have "weight_of ?g1 k' n = weight_of g k' n" unfolding w1 by simp
    with Cons.prems(2) k' show "weight_of ?g1 k' n \<noteq> None" by simp
  qed
  have ok1: "dict_ok ?g1" using Cons.prems(3) by (intro dict_ok_adj_update distinct_dict_del)
  from Cons.IH[OF d p ok1] obtain g' where
    g': "del_back ?g1 n ks = Inr g'" "map fst g' = map fst ?g1" "dict_ok g'"
        "\<forall>a b. weight_of g' a b = (if b = n \<and> a \<in> set ks then None else weight_of ?g1 a b)"
    by blast
  note g4 = g'(4)[rule_format]
  have "weight_of g' a b = (if b = n \<and> a \<in> set (k # ks) then None else weight_of g a b)"
    for a b
  proof (cases "b = n \<and> a \<in> set ks")
    case True
    then have t: "b = n \<and> a \<in> set (k # ks)" by simp
    show ?thesis unfolding g4[of a b] if_P[OF True] if_P[OF t] ..
  next
    case False
    have e: "weight_of g' a b = weight_of ?g1 a b" unfolding g4[of a b] if_not_P[OF False] ..
    show ?thesis
    proof (cases "a = k \<and> b = n")
      case True
      then have t: "b = n \<and> a \<in> set (k # ks)" by simp
      show ?thesis unfolding e w1[of a b] if_P[OF True] if_P[OF t] ..
    next
      case ak: False
      from ak False have t: "\<not> (b = n \<and> a \<in> set (k # ks))" by auto
      show ?thesis unfolding e w1[of a b] if_not_P[OF ak] if_not_P[OF t] ..
    qed
  qed
  with g'(1,2,3) step show ?case by (simp add: keys_adj_update)
qed

lemma weight_of_outer_del:
  "weight_of (dict_del g n) a b = (if a = n then None else weight_of g a b)"
  by (simp add: weight_of_def map_of_dict_del)

lemma dict_ok_outer_del: "dict_ok g \<Longrightarrow> dict_ok (dict_del g n)"
  unfolding dict_ok_def by (auto simp: distinct_dict_del) (auto simp: dict_del_def)

lemma symmetric_keys:
  assumes "symmetric g" "weight_of g a b = Some w"
  shows "weight_of g b a = Some w"
  using assms unfolding symmetric_def by blast

text \<open>
  Removing a node succeeds on a symmetric topology, keeps it symmetric, removes the node
  and every reference to it, and leaves all other links as they were.
\<close>

lemma remove_node_ok:
  assumes inv: "topo_inv g"
  shows "\<exists>g'. remove_node g n = Inr g' \<and> topo_inv g' \<and> n \<notin> set (nodes g') \<and>
           (\<forall>u. weight_of g' u n = None) \<and>
           (\<forall>a b. a \<noteq> n \<longrightarrow> b \<noteq> n \<longrightarrow> weight_of g' a b = weight_of g a b)"
proof (cases "map_of g n")
  case None
  then have r: "remove_node g n = Inr g" by (simp add: remove_node_def)
  from None have k: "n \<notin> set (nodes g)" by (simp add: nodes_def map_of_eq_None_iff)
  have "weight_of g u n = None" for u
  proof (rule ccontr)
    assume "weight_of g u n \<noteq> None"
    then obtain w where "weight_of g u n = Some w" by blast
    with inv have "weight_of g n u = Some w" unfolding topo_inv_def by (blast intro: symmetric_keys)
    with None show False by (simp add: weight_of_def)
  qed
  with r k inv show ?thesis by simp
next
  case (Some nb)
  from inv have ok: "dict_ok g" and sym: "symmetric g" by (simp_all add: topo_inv_def)
  from Some have "(n, nb) \<in> set g" by (rule map_of_SomeD)
  with ok have dk: "distinct (map fst nb)" unfolding dict_ok_def by blast
  have pre: "\<forall>k \<in> set (map fst nb). weight_of g k n \<noteq> None"
  proof
    fix k assume "k \<in> set (map fst nb)"
    then obtain w where "map_of nb k = Some w"
      by (metis has_key_def has_key_map_of not_None_eq)
    with Some have "weight_of g n k = Some w" by (simp add: weight_of_def)
    from symmetric_keys[OF sym this] show "weight_of g k n \<noteq> None" by simp
  qed
  from del_back_ok[OF dk pre ok] obtain g1 where
    g1: "del_back g n (map fst nb) = Inr g1" "map fst g1 = map fst g" "dict_ok g1"
      "\<forall>a b. weight_of g1 a b =
         (if b = n \<and> a \<in> set (map fst nb) then None else weight_of g a b)" by blast
  let ?g' = "dict_del g1 n"
  have r: "remove_node g n = Inr ?g'" by (simp add: remove_node_def Some g1(1))
  have nbk: "a \<in> set (map fst nb)" if "weight_of g a n = Some w" for a w
  proof -
    from symmetric_keys[OF sym that] Some have "map_of nb a = Some w"
      by (simp add: weight_of_def)
    then show ?thesis by (metis has_key_def has_key_map_of option.distinct(1))
  qed
  note g14 = g1(4)[rule_format]
  have w': "weight_of ?g' a b = (if a = n \<or> b = n then None else weight_of g a b)" for a b
  proof (cases "a = n")
    case True
    then have t: "a = n \<or> b = n" by simp
    show ?thesis unfolding weight_of_outer_del if_P[OF True] if_P[OF t] ..
  next
    case an: False
    have e: "weight_of ?g' a b = weight_of g1 a b"
      unfolding weight_of_outer_del if_not_P[OF an] ..
    show ?thesis
    proof (cases "b = n")
      case False
      with an have t: "\<not> (a = n \<or> b = n)" by simp
      from False have f: "\<not> (b = n \<and> a \<in> set (map fst nb))" by simp
      show ?thesis unfolding e g14[of a b] if_not_P[OF f] if_not_P[OF t] ..
    next
      case True
      then have t: "a = n \<or> b = n" by simp
      have "weight_of g1 a b = None"
      proof (cases "a \<in> set (map fst nb)")
        case m: True
        with True have f: "b = n \<and> a \<in> set (map fst nb)" by simp
        show ?thesis unfolding g14[of a b] if_P[OF f] ..
      next
        case m: False
        then have f: "\<not> (b = n \<and> a \<in> set (map fst nb))" by simp
        from m nbk have "weight_of g a n = None" by (cases "weight_of g a n") auto
        with True show ?thesis unfolding g14[of a b] if_not_P[OF f] by simp
      qed
      then show ?thesis unfolding e if_P[OF t] .
    qed
  qed
  have sym': "symmetric ?g'"
    unfolding symmetric_def
  proof (intro allI impI)
    fix a b w assume e: "weight_of ?g' a b = Some w"
    then have n: "\<not> (a = n \<or> b = n)" unfolding w' by (cases "a = n \<or> b = n") simp_all
    then have n': "\<not> (b = n \<or> a = n)" by blast
    from e have "weight_of g a b = Some w" unfolding w' if_not_P[OF n] .
    from symmetric_keys[OF sym this] show "weight_of ?g' b a = Some w"
      unfolding w' if_not_P[OF n'] .
  qed
  have "n \<notin> set (nodes ?g')" by (simp add: nodes_def keys_dict_del)
  moreover have "topo_inv ?g'" using sym' dict_ok_outer_del[OF g1(3)] by (simp add: topo_inv_def)
  moreover have "\<forall>u. weight_of ?g' u n = None" unfolding w' by simp
  moreover have "\<forall>a b. a \<noteq> n \<longrightarrow> b \<noteq> n \<longrightarrow> weight_of ?g' a b = weight_of g a b"
    unfolding w' by simp
  ultimately show ?thesis using r by blast
qed

lemma topo_inv_empty: "topo_inv []"
  by (simp add: topo_inv_def dict_ok_def symmetric_def weight_of_def)

lemma apply_op_ok:
  assumes "topo_inv g"
  shows "\<exists>g'. apply_op g x = Inr g' \<and> topo_inv g'"
proof (cases x)
  case (AddNode n)
  with topo_inv_add_node[OF assms, of n] show ?thesis by simp
next
  case (RemoveNode n)
  with remove_node_ok[OF assms, of n] show ?thesis by auto
next
  case (AddLink u v w)
  with topo_inv_add_link[OF assms, of u v w] show ?thesis by simp
next
  case (RemoveLink u v)
  with topo_inv_remove_link[OF assms, of u v] show ?thesis by simp
qed

lemma run_ops_ok: "topo_inv g \<Longrightarrow> \<exists>g'. run_ops g ops = Inr g' \<and> topo_inv g'"
proof (induction ops arbitrary: g)
  case Nil
  then show ?case by simp
next
  case (Cons x ops)
  from apply_op_ok[OF Cons.prems, of x] obtain g1 where
    g1: "apply_op g x = Inr g1" "topo_inv g1" by blast
  from Cons.IH[OF g1(2)] g1(1) show ?case by simp
qed

lemma no_reference:
  assumes "weight_of g u n = None"
  shows "n \<notin> fst ` set (neighbors g u)"
proof (cases "map_of g u")
  case None
  then show ?thesis by (simp add: neighbors_def)
next
  case (Some nb)
  with assms have "map_of nb n = None" by (simp add: weight_of_def)
  then have "n \<notin> fst ` set nb" by (simp add: map_of_eq_None_iff)
  with Some show ?thesis by (simp add: neighbors_def)
qed

lemma nonnegD: "nonneg g \<Longrightarrow> weight_of g u v = Some w \<Longrightarrow> 0 \<le> w"
  unfolding nonneg_def by blast

lemma graph_ok_from_inv:
  assumes inv: "topo_inv g" and nn: "nonneg g"
  shows "graph_ok g"
proof -
  from inv have ok: "dict_ok g" and sym: "symmetric g" by (simp_all add: topo_inv_def)
  from ok have d: "distinct (map fst g)" by (simp add: dict_ok_def)
  have "distinct (map fst nb) \<and> list_all (\<lambda>(v, w). has_key g v \<and> 0 \<le> w) nb"
    if m: "(u, nb) \<in> set g" for u nb
  proof
    from ok m show dn: "distinct (map fst nb)" unfolding dict_ok_def by blast
    from d m have mu: "map_of g u = Some nb" by simp
    have "has_key g v \<and> 0 \<le> w" if vw: "(v, w) \<in> set nb" for v w
    proof -
      from dn vw have "map_of nb v = Some w" by simp
      with mu have e: "weight_of g u v = Some w" by (simp add: weight_of_def)
      from symmetric_keys[OF sym e] have "map_of g v \<noteq> None"
        by (cases "map_of g v") (simp_all add: weight_of_def)
      then have "has_key g v" by (simp add: has_key_map_of)
      with nonnegD[OF nn e] show ?thesis by simp
    qed
    then show "list_all (\<lambda>(v, w). has_key g v \<and> 0 \<le> w) nb"
      unfolding list_all_iff by blast
  qed
  then have "list_all (\<lambda>(u, nb). distinct (map fst nb) \<and>
                  list_all (\<lambda>(v, w). has_key g v \<and> 0 \<le> w) nb) g"
    unfolding list_all_iff by blast
  with d show ?thesis by (simp add: graph_ok_def)
qed

lemma nonneg_apply_op:
  assumes inv: "topo_inv g" and nn: "nonneg g" and x: "op_ok x"
    and r: "apply_op g x = Inr g'"
  shows "nonneg g'"
proof (cases x)
  case (AddNode n)
  with r have g': "g' = add_node g n" by simp
  from nn show ?thesis unfolding g' nonneg_def weight_of_add_node .
next
  case (RemoveNode n)
  with r have rn: "remove_node g n = Inr g'" by simp
  from remove_node_ok[OF inv, of n] rn have inv': "topo_inv g'"
    and none: "\<forall>u. weight_of g' u n = None"
    and same: "\<forall>a b. a \<noteq> n \<longrightarrow> b \<noteq> n \<longrightarrow> weight_of g' a b = weight_of g a b" by auto
  from inv' have sym': "symmetric g'" by (simp add: topo_inv_def)
  show ?thesis
    unfolding nonneg_def
  proof (intro allI impI)
    fix a b w assume e: "weight_of g' a b = Some w"
    from none e have bn: "b \<noteq> n" by auto
    from symmetric_keys[OF sym' e] none have an: "a \<noteq> n" by auto
    from same an bn e have "weight_of g a b = Some w" by simp
    from nonnegD[OF nn this] show "0 \<le> w" .
  qed
next
  case (AddLink u v w)
  with r x have g': "g' = add_link g u v w" and w0: "0 \<le> w" by simp_all
  show ?thesis
    unfolding nonneg_def
  proof (intro allI impI)
    fix a b y assume e: "weight_of g' a b = Some y"
    show "0 \<le> y"
    proof (cases "(a = u \<and> b = v) \<or> (a = v \<and> b = u)")
      case True
      from e have "Some w = Some y" unfolding g' weight_of_add_link if_P[OF True] .
      with w0 show ?thesis by simp
    next
      case False
      from e have "weight_of g a b = Some y" unfolding g' weight_of_add_link if_not_P[OF False] .
      from nonnegD[OF nn this] show ?thesis .
    qed
  qed
next
  case (RemoveLink u v)
  with r have g': "g' = remove_link g u v" by simp
  show ?thesis
    unfolding nonneg_def
  proof (intro allI impI)
    fix a b y assume e: "weight_of g' a b = Some y"
    show "0 \<le> y"
    proof (cases "(a = u \<and> b = v) \<or> (a = v \<and> b = u)")
      case True
      from e have "None = Some y" unfolding g' weight_of_remove_link if_P[OF True] .
      then show ?thesis by simp
    next
      case False
      from e have "weight_of g a b = Some y"
        unfolding g' weight_of_remove_link if_not_P[OF False] .
      from nonnegD[OF nn this] show ?thesis .
    qed
  qed
qed

lemma run_ops_nonneg:
  "topo_inv g \<Longrightarrow> nonneg g \<Longrightarrow> list_all op_ok ops \<Longrightarrow>
   \<exists>g'. run_ops g ops = Inr g' \<and> topo_inv g' \<and> nonneg g'"
proof (induction ops arbitrary: g)
  case Nil
  then show ?case by simp
next
  case (Cons x ops)
  from Cons.prems(3) have x: "op_ok x" and rest: "list_all op_ok ops" by simp_all
  from apply_op_ok[OF Cons.prems(1), of x] obtain g1 where
    g1: "apply_op g x = Inr g1" "topo_inv g1" by blast
  from nonneg_apply_op[OF Cons.prems(1,2) x g1(1)] have "nonneg g1" .
  from Cons.IH[OF g1(2) this rest] g1(1) show ?case by simp
qed

text \<open>
  Every topology that the operations build from the empty one, with non-negative link
  weights, is well-formed.
\<close>

lemma run_ops_graph_ok:
  assumes "list_all op_ok ops"
  shows "\<exists>g. run_ops [] ops = Inr g \<and> graph_ok g"
proof -
  have "nonneg []" by (simp add: nonneg_def weight_of_def)
  from run_ops_nonneg[OF topo_inv_empty this assms] obtain g where
    "run_ops [] ops = Inr g" "topo_inv g" "nonneg g" by blast
  with graph_ok_from_inv show ?thesis by blast
qed

section \<open>Correctness of the shortest-path engine\<close>

lemma graph_ok_nbrs:
  assumes "graph_ok g" "(v, w) \<in> set (neighbors g u)"
  shows "weight_of g u v = Some w" "v \<in> set (nodes g)" "0 \<le> w"
proof -
  from assms(2) obtain nb where nb: "map_of g u = Some nb" "(v, w) \<in> set nb"
    by (cases "map_of g u") (auto simp: neighbors_def)
  then have mem: "(u, nb) \<in> set g" by (simp add: map_of_SomeD)
  with assms(1) have d: "distinct (map fst nb)" and
      a: "list_all (\<lambda>(v, w). has_key g v \<and> 0 \<le> w) nb"
    by (auto simp: graph_ok_def list_all_iff)
  from d nb(2) have "map_of nb v = Some w" by simp
  with nb(1) show "weight_of g u v = Some w" by (simp add: weight_of_def)
  from a nb(2) show "v \<in> set (nodes g)" "0 \<le> w"
    by (auto simp: list_all_iff has_key_def nodes_def)
qed

lemma weight_of_nbrs: "weight_of g u v = Some w \<Longrightarrow> (v, w) \<in> set (neighbors g u)"
  by (auto simp: weight_of_def neighbors_def split: option.splits dest: map_of_SomeD)

lemma graph_ok_edge:
  assumes "graph_ok g" "weight_of g u v = Some w"
  shows "v \<in> set (nodes g)" "0 \<le> w"
  using graph_ok_nbrs[OF assms(1) weight_of_nbrs[OF assms(2)]] by auto

lemma heappop_None: "heappop pq = None \<longleftrightarrow> pq = []"
  by (cases pq) (auto simp: Let_def)

lemma heappop_Some:
  assumes "heappop pq = Some (m, pq')"
  shows "m \<in> set pq" "\<forall>x \<in> set pq. m \<le> x" "pq' = remove1 m pq" "length pq = Suc (length pq')"
proof -
  from assms obtain x xs where pq: "pq = x # xs" by (cases pq) auto
  with assms have m: "m = fold min xs x" and r: "pq' = remove1 m pq"
    by (auto simp: Let_def)
  have mm: "m = Min (set pq)" unfolding m pq using Min.set_eq_fold[of x xs] by simp
  show "m \<in> set pq" unfolding mm by (rule Min_in) (auto simp: pq)
  then show "length pq = Suc (length pq')" unfolding r
    by (simp add: length_remove1) (cases pq, auto)
  show "\<forall>x \<in> set pq. m \<le> x" unfolding mm by simp
  show "pq' = remove1 m pq" by (rule r)
qed

lemma pair_le_fst: "(a::int, b::node) \<le> (c, d) \<Longrightarrow> a \<le> c"
  by (auto simp: less_eq_prod_def)

lemma sum_upd_less:
  fixes f f' :: "'a \<Rightarrow> nat"
  assumes "finite V" "v \<in> V" "f' v < f v" "\<And>x. x \<noteq> v \<Longrightarrow> f' x = f x"
  shows "sum f' V < sum f V"
proof -
  have "sum f' (V - {v}) = sum f (V - {v})" by (rule sum.cong) (auto simp: assms(4))
  then show ?thesis using assms(1,2,3) by (simp add: sum.remove[of V v])
qed

lemma sum_upd_eq:
  fixes f f' :: "'a \<Rightarrow> nat"
  assumes "\<And>x. x \<in> V \<Longrightarrow> f' x = f x"
  shows "sum f' V = sum f V"
  by (rule sum.cong) (auto simp: assms)

lemma reach_upd_low:
  assumes tree: "sp_tree g dist prev" and ok: "graph_ok g"
    and big: "\<And>k. dist v = Some (Fin k) \<Longrightarrow> d < k"
    and r: "reach prev src y" and dy: "dist y = Some (Fin ky)" "ky \<le> d"
  shows "reach (prev(v \<mapsto> Some u)) src y"
  using r dy
proof (induction arbitrary: ky rule: reach.induct)
  case reach_src
  show ?case by (rule reach.reach_src)
next
  case (reach_step y z)
  from tree reach_step.hyps(1) obtain kz w where
    z: "dist z = Some (Fin kz)" "weight_of g z y = Some w" "dist y = Some (Fin (kz + w))"
    unfolding sp_tree_def by blast
  from graph_ok_edge[OF ok z(2)] have "0 \<le> w" by simp
  with z(3) reach_step.prems have "kz \<le> d" by simp
  then have rz: "reach (prev(v \<mapsto> Some u)) src z" using reach_step.IH z(1) by blast
  from big reach_step.prems have "y \<noteq> v" by fastforce
  then have "(prev(v \<mapsto> Some u)) y = Some (Some z)" using reach_step.hyps(1) by simp
  then show ?case using rz by (rule reach.reach_step)
qed

lemma reach_upd_all:
  assumes ru: "reach (prev(v \<mapsto> Some u)) src u" and r: "reach prev src y"
  shows "reach (prev(v \<mapsto> Some u)) src y"
  using r
proof (induction rule: reach.induct)
  case reach_src
  show ?case by (rule reach.reach_src)
next
  case (reach_step y z)
  show ?case
  proof (cases "y = v")
    case True
    then have "(prev(v \<mapsto> Some u)) y = Some (Some u)" by simp
    then show ?thesis using ru by (rule reach.reach_step)
  next
    case False
    then have "(prev(v \<mapsto> Some u)) y = Some (Some z)" using reach_step.hyps(1) by simp
    then show ?thesis using reach_step.IH by (rule reach.reach_step)
  qed
qed

lemma relax_update:
  assumes ok: "graph_ok g"
    and mid: "sp_mid g src d u ((v, w) # todo) (dist, prev, pq)"
    and dv: "dist v = Some dv" and lt: "pn_less (Fin (d + w)) dv"
  shows "sp_mid g src d u todo
           (dist(v \<mapsto> Fin (d + w)), prev(v \<mapsto> Some u), heappush pq (d + w, v))"
    and "(sp_pot g src (dist(v \<mapsto> Fin (d + w))), sp_pot g src dist) \<in> pot_less"
proof -
  let ?nd = "d + w"
  let ?dist = "dist(v \<mapsto> Fin ?nd)"
  let ?prev = "prev(v \<mapsto> Some u)"
  let ?pq = "heappush pq (?nd, v)"
  from mid have base: "sp_base g src dist prev pq" and tree: "sp_tree g dist prev"
    and low: "sp_low dist prev d" and floor: "\<And>d' x. (d', x) \<in> set pq \<Longrightarrow> d \<le> d'"
    and cur: "dist u = Some (Fin d)" and sub: "set ((v, w) # todo) \<subseteq> set (neighbors g u)"
    and rel: "sp_relaxed g dist pq u ((v, w) # todo)"
    by (auto simp: sp_mid_def)
  from base have D0: "dom dist = set (nodes g) \<union> {src}" and P0: "dom prev = set (nodes g)"
    and D1: "dist src = Some (Fin 0)" and D2: "\<And>x k. dist x = Some (Fin k) \<Longrightarrow> 0 \<le> k"
    and H1: "\<And>d' x. (d', x) \<in> set pq \<Longrightarrow> \<exists>k. dist x = Some (Fin k) \<and> k \<le> d'"
    and P3: "\<And>x. prev src \<noteq> Some (Some x)"
    and P2: "\<And>x k. dist x = Some (Fin k) \<Longrightarrow> x \<noteq> src \<Longrightarrow> \<exists>y. prev x = Some (Some y)"
    and Ch: "\<And>x y. prev x = Some (Some y) \<Longrightarrow> reach prev src y"
    unfolding sp_base_def by blast+
  from sub have "(v, w) \<in> set (neighbors g u)" by simp
  from graph_ok_nbrs[OF ok this] have e: "weight_of g u v = Some w"
    and vn: "v \<in> set (nodes g)" and w0: "0 \<le> w" by auto
  from D2[OF cur] have d0: "0 \<le> d" .
  have big: "\<And>k. dist v = Some (Fin k) \<Longrightarrow> ?nd < k" using dv lt by auto
  have vu: "v \<noteq> u" using big[of d] cur w0 by auto
  have vs: "v \<noteq> src" using big[of 0] D1 w0 d0 by auto
  have pq_set: "set ?pq = insert (?nd, v) (set pq)" by (simp add: heappush_def)
  have lowv: "\<And>x y. prev x = Some (Some y) \<Longrightarrow> y \<noteq> v"
  proof
    fix x y assume p: "prev x = Some (Some y)" and "y = v"
    from tree p obtain ky where ky: "dist y = Some (Fin ky)" unfolding sp_tree_def by blast
    with low p have "ky \<le> d" unfolding sp_low_def by blast
    with big[of ky] ky \<open>y = v\<close> w0 show False by auto
  qed
  have ru: "reach ?prev src u"
  proof -
    have "reach prev src u"
    proof (cases "u = src")
      case True then show ?thesis by (simp add: reach.reach_src)
    next
      case False
      from P2[OF cur False] obtain y where y: "prev u = Some (Some y)" by blast
      from reach.reach_step[OF y Ch[OF y]] show ?thesis .
    qed
    from reach_upd_low[OF tree ok _ this cur] big w0 show ?thesis by fastforce
  qed
  have base': "sp_base g src ?dist ?prev ?pq"
    unfolding sp_base_def
  proof (intro conjI allI impI)
    show "dom ?dist = set (nodes g) \<union> {src}" using D0 vn by auto
    show "dom ?prev = set (nodes g)" using P0 vn by auto
    show "?dist src = Some (Fin 0)" using D1 vs by simp
    show "0 \<le> k" if "?dist x = Some (Fin k)" for x k
      using that D2[of x k] d0 w0 by (auto split: if_splits)
    show "\<exists>k. ?dist x = Some (Fin k) \<and> k \<le> d'" if "(d', x) \<in> set ?pq" for d' x
    proof (cases "x = v")
      case True
      from that have "d' = ?nd \<or> (d', x) \<in> set pq" by (auto simp: pq_set)
      then have "?nd \<le> d'"
      proof
        assume "(d', x) \<in> set pq"
        from H1[OF this] obtain k where "dist x = Some (Fin k)" "k \<le> d'" by blast
        with big[of k] True show ?thesis by auto
      qed simp
      with True show ?thesis by simp
    next
      case False
      with that have "(d', x) \<in> set pq" by (auto simp: pq_set)
      from H1[OF this] False show ?thesis by simp
    qed
    show "?prev src \<noteq> Some (Some x)" for x using P3 vs by simp
    show "\<exists>y. ?prev x = Some (Some y)" if "?dist x = Some (Fin k)" "x \<noteq> src" for x k
      using that P2[of x k] by (auto split: if_splits)
    show "reach ?prev src y" if "?prev x = Some (Some y)" for x y
    proof (cases "x = v")
      case True with that ru show ?thesis by simp
    next
      case False
      with that have "prev x = Some (Some y)" by simp
      from reach_upd_all[OF ru Ch[OF this]] show ?thesis .
    qed
  qed
  have tree': "sp_tree g ?dist ?prev"
    unfolding sp_tree_def
  proof (intro allI impI)
    fix x y assume p: "?prev x = Some (Some y)"
    show "\<exists>ku w'. ?dist y = Some (Fin ku) \<and> weight_of g y x = Some w' \<and>
            ?dist x = Some (Fin (ku + w'))"
    proof (cases "x = v")
      case True
      with p have "y = u" by simp
      with True cur e vu show ?thesis by auto
    next
      case False
      with p have p': "prev x = Some (Some y)" by simp
      from lowv[OF p'] have "y \<noteq> v" .
      with tree p' False show ?thesis unfolding sp_tree_def by auto
    qed
  qed
  have low': "sp_low ?dist ?prev d"
    unfolding sp_low_def
  proof (intro allI impI)
    fix x y ky assume p: "?prev x = Some (Some y)" and dy: "?dist y = Some (Fin ky)"
    show "ky \<le> d"
    proof (cases "x = v")
      case True
      with p have "y = u" by simp
      with dy cur vu show ?thesis by auto
    next
      case False
      with p have p': "prev x = Some (Some y)" by simp
      from lowv[OF p'] dy have "dist y = Some (Fin ky)" by simp
      with low p' show ?thesis unfolding sp_low_def by blast
    qed
  qed
  have floor': "\<forall>d' x. (d', x) \<in> set ?pq \<longrightarrow> d \<le> d'"
    using floor w0 by (auto simp: pq_set)
  have cur': "?dist u = Some (Fin d)" using cur vu by simp
  have sub': "set todo \<subseteq> set (neighbors g u)" using sub by simp
  have rel': "sp_relaxed g ?dist ?pq u todo"
    unfolding sp_relaxed_def
  proof (intro allI impI)
    fix x k assume dx: "?dist x = Some (Fin k)"
    show "(k, x) \<in> set ?pq \<or>
          (\<forall>a b. weight_of g x a = Some b \<longrightarrow>
             (x = u \<and> (a, b) \<in> set todo) \<or> (\<exists>k'. ?dist a = Some (Fin k') \<and> k' \<le> k + b))"
    proof (cases "x = v")
      case True
      with dx show ?thesis by (auto simp: pq_set)
    next
      case False
      with dx have dx': "dist x = Some (Fin k)" by simp
      from rel dx' have
        "(k, x) \<in> set pq \<or>
          (\<forall>a b. weight_of g x a = Some b \<longrightarrow>
             (x = u \<and> (a, b) \<in> set ((v, w) # todo)) \<or>
             (\<exists>k'. dist a = Some (Fin k') \<and> k' \<le> k + b))"
        unfolding sp_relaxed_def by blast
      then show ?thesis
      proof
        assume "(k, x) \<in> set pq" then show ?thesis by (simp add: pq_set)
      next
        assume A: "\<forall>a b. weight_of g x a = Some b \<longrightarrow>
             (x = u \<and> (a, b) \<in> set ((v, w) # todo)) \<or>
             (\<exists>k'. dist a = Some (Fin k') \<and> k' \<le> k + b)"
        have "(x = u \<and> (a, b) \<in> set todo) \<or> (\<exists>k'. ?dist a = Some (Fin k') \<and> k' \<le> k + b)"
          if wab: "weight_of g x a = Some b" for a b
        proof -
          from A wab have
            "(x = u \<and> (a, b) \<in> set ((v, w) # todo)) \<or>
             (\<exists>k'. dist a = Some (Fin k') \<and> k' \<le> k + b)" by blast
          then consider (hd) "x = u" "a = v" "b = w" | (tl) "x = u" "(a, b) \<in> set todo"
            | (old) k' where "dist a = Some (Fin k')" "k' \<le> k + b" by auto
          then show ?thesis
          proof cases
            case hd
            with dx' cur have "k = d" by simp
            with hd show ?thesis by simp
          next
            case tl then show ?thesis by simp
          next
            case old
            show ?thesis
            proof (cases "a = v")
              case True
              with old big[of k'] show ?thesis by auto
            next
              case False with old show ?thesis by auto
            qed
          qed
        qed
        then show ?thesis by blast
      qed
    qed
  qed
  show "sp_mid g src d u todo (?dist, ?prev, ?pq)"
    unfolding sp_mid_def using base' tree' low' floor' cur' sub' rel' by simp
  have vV: "v \<in> set (nodes g) \<union> {src}" using vn by simp
  have fin: "finite (set (nodes g) \<union> {src})" by simp
  show "(sp_pot g src ?dist, sp_pot g src dist) \<in> pot_less"
  proof (cases dv)
    case PInf
    have "(\<Sum>x \<in> set (nodes g) \<union> {src}. if ?dist x = Some PInf then 1 else 0)
        < (\<Sum>x \<in> set (nodes g) \<union> {src}. if dist x = Some PInf then 1 else (0::nat))"
      by (rule sum_upd_less[OF fin vV]) (use dv PInf in auto)
    then show ?thesis by (simp add: sp_pot_def pot_less_def)
  next
    case (Fin k)
    with big[of k] dv have nk: "?nd < k" by simp
    have eq: "(\<Sum>x \<in> set (nodes g) \<union> {src}. if ?dist x = Some PInf then 1 else 0)
        = (\<Sum>x \<in> set (nodes g) \<union> {src}. if dist x = Some PInf then 1 else (0::nat))"
      by (rule sum_upd_eq) (use dv Fin in auto)
    have "(\<Sum>x \<in> set (nodes g) \<union> {src}. case ?dist x of Some (Fin k) \<Rightarrow> nat k | _ \<Rightarrow> 0)
        < (\<Sum>x \<in> set (nodes g) \<union> {src}. case dist x of Some (Fin k) \<Rightarrow> nat k | _ \<Rightarrow> 0)"
      by (rule sum_upd_less[OF fin vV]) (use dv Fin nk d0 w0 in auto)
    with eq show ?thesis by (simp add: sp_pot_def pot_less_def)
  qed
qed

lemma relax_keep:
  assumes ok: "graph_ok g"
    and mid: "sp_mid g src d u ((v, w) # todo) (dist, prev, pq)"
  shows "\<exists>dv. dist v = Some dv"
    and "dist v = Some dv \<Longrightarrow> \<not> pn_less (Fin (d + w)) dv \<Longrightarrow>
           sp_mid g src d u todo (dist, prev, pq)"
proof -
  from mid have base: "sp_base g src dist prev pq"
    and sub: "set ((v, w) # todo) \<subseteq> set (neighbors g u)"
    and cur: "dist u = Some (Fin d)"
    and rel: "sp_relaxed g dist pq u ((v, w) # todo)"
    by (auto simp: sp_mid_def)
  from sub have "(v, w) \<in> set (neighbors g u)" by simp
  from graph_ok_nbrs[OF ok this] have vn: "v \<in> set (nodes g)" by auto
  from base have "dom dist = set (nodes g) \<union> {src}" unfolding sp_base_def by blast
  with vn show "\<exists>dv. dist v = Some dv" by blast
  assume dv: "dist v = Some dv" and nlt: "\<not> pn_less (Fin (d + w)) dv"
  from nlt obtain k' where k': "dv = Fin k'" "k' \<le> d + w" by (cases dv) auto
  have "sp_relaxed g dist pq u todo"
    unfolding sp_relaxed_def
  proof (intro allI impI)
    fix x k assume dx: "dist x = Some (Fin k)"
    from rel dx have
      "(k, x) \<in> set pq \<or>
        (\<forall>a b. weight_of g x a = Some b \<longrightarrow>
           (x = u \<and> (a, b) \<in> set ((v, w) # todo)) \<or>
           (\<exists>k'. dist a = Some (Fin k') \<and> k' \<le> k + b))"
      unfolding sp_relaxed_def by blast
    then show "(k, x) \<in> set pq \<or>
        (\<forall>a b. weight_of g x a = Some b \<longrightarrow>
           (x = u \<and> (a, b) \<in> set todo) \<or> (\<exists>k'. dist a = Some (Fin k') \<and> k' \<le> k + b))"
    proof
      assume "(k, x) \<in> set pq" then show ?thesis by simp
    next
      assume A: "\<forall>a b. weight_of g x a = Some b \<longrightarrow>
           (x = u \<and> (a, b) \<in> set ((v, w) # todo)) \<or>
           (\<exists>k'. dist a = Some (Fin k') \<and> k' \<le> k + b)"
      have "(x = u \<and> (a, b) \<in> set todo) \<or> (\<exists>k'. dist a = Some (Fin k') \<and> k' \<le> k + b)"
        if wab: "weight_of g x a = Some b" for a b
      proof -
        from A wab have
          "(x = u \<and> (a, b) \<in> set ((v, w) # todo)) \<or>
           (\<exists>k'. dist a = Some (Fin k') \<and> k' \<le> k + b)" by blast
        then consider (hd) "x = u" "a = v" "b = w" | (tl) "x = u" "(a, b) \<in> set todo"
          | (old) k' where "dist a = Some (Fin k')" "k' \<le> k + b" by auto
        then show ?thesis
        proof cases
          case hd
          with dx cur have "k = d" by simp
          with hd dv k' show ?thesis by simp
        next
          case tl then show ?thesis by simp
        next
          case old then show ?thesis by auto
        qed
      qed
      then show ?thesis by blast
    qed
  qed
  with mid show "sp_mid g src d u todo (dist, prev, pq)" by (auto simp: sp_mid_def)
qed

lemma trans_pot_less: "trans pot_less"
  unfolding pot_less_def by (intro trans_lex_prod) auto

lemma wf_pot_less: "wf pot_less"
  unfolding pot_less_def by (intro wf_lex_prod) auto

lemma relax_all_ok:
  assumes ok: "graph_ok g"
  shows "sp_mid g src d u todo s \<Longrightarrow>
         \<exists>s'. relax_all d u todo s = Inr s' \<and> sp_mid g src d u [] s' \<and>
              (s' = s \<or> (sp_pot g src (fst s'), sp_pot g src (fst s)) \<in> pot_less)"
proof (induction todo arbitrary: s)
  case Nil
  then show ?case by simp
next
  case (Cons vw todo)
  obtain v w where vw: "vw = (v, w)" by (cases vw)
  obtain dist prev pq where s: "s = (dist, prev, pq)" by (cases s)
  from Cons.prems have mid: "sp_mid g src d u ((v, w) # todo) (dist, prev, pq)"
    by (simp add: vw s)
  from relax_keep(1)[OF ok mid] obtain dv where dv: "dist v = Some dv" by blast
  show ?case
  proof (cases "pn_less (Fin (d + w)) dv")
    case True
    let ?s1 = "(dist(v \<mapsto> Fin (d + w)), prev(v \<mapsto> Some u), heappush pq (d + w, v))"
    from relax_update[OF ok mid dv True] have m1: "sp_mid g src d u todo ?s1"
      and p1: "(sp_pot g src (fst ?s1), sp_pot g src (fst s)) \<in> pot_less"
      by (simp_all add: s)
    from Cons.IH[OF m1] obtain s' where s': "relax_all d u todo ?s1 = Inr s'"
      "sp_mid g src d u [] s'"
      "s' = ?s1 \<or> (sp_pot g src (fst s'), sp_pot g src (fst ?s1)) \<in> pot_less" by blast
    from s'(3) p1 have "(sp_pot g src (fst s'), sp_pot g src (fst s)) \<in> pot_less"
      using trans_pot_less by (auto dest: transD)
    moreover have "relax_all d u (vw # todo) s = Inr s'"
      using s'(1) dv True by (simp add: vw s Let_def)
    ultimately show ?thesis using s'(2) by blast
  next
    case False
    from relax_keep(2)[OF ok mid dv False] have m1: "sp_mid g src d u todo s"
      by (simp add: s)
    from Cons.IH[OF m1] obtain s' where s': "relax_all d u todo s = Inr s'"
      "sp_mid g src d u [] s'"
      "s' = s \<or> (sp_pot g src (fst s'), sp_pot g src (fst s)) \<in> pot_less" by blast
    have "relax_all d u (vw # todo) s = Inr s'"
      using s'(1) dv False by (simp add: vw s Let_def)
    then show ?thesis using s'(2,3) by blast
  qed
qed

lemma mid_to_inv:
  assumes "sp_mid g src d u [] s"
  shows "sp_inv g src s"
proof -
  obtain dist prev pq where s: "s = (dist, prev, pq)" by (cases s)
  from assms have base: "sp_base g src dist prev pq" and tree: "sp_tree g dist prev"
    and low: "sp_low dist prev d" and floor: "\<And>d' x. (d', x) \<in> set pq \<Longrightarrow> d \<le> d'"
    and rel: "sp_relaxed g dist pq u []"
    by (auto simp: sp_mid_def s)
  have "sp_settled dist prev pq"
    unfolding sp_settled_def
  proof (intro allI impI)
    fix v y ky d' x
    assume "prev v = Some (Some y)" "dist y = Some (Fin ky)" "(d', x) \<in> set pq"
    with low floor[of d' x] have "ky \<le> d" "d \<le> d'" unfolding sp_low_def by blast+
    then show "ky \<le> d'" by simp
  qed
  moreover have "sp_relaxed g dist pq src []"
    using rel unfolding sp_relaxed_def by simp
  ultimately show ?thesis using base tree by (simp add: sp_inv_def s)
qed

lemma sp_base_mono:
  assumes "sp_base g src dist prev pq" "set pq' \<subseteq> set pq"
  shows "sp_base g src dist prev pq'"
proof -
  from assms(1) have
    H1: "\<forall>d u. (d, u) \<in> set pq \<longrightarrow> (\<exists>k. dist u = Some (Fin k) \<and> k \<le> d)"
    unfolding sp_base_def by (elim conjE)
  with assms(2) have
    "\<forall>d u. (d, u) \<in> set pq' \<longrightarrow> (\<exists>k. dist u = Some (Fin k) \<and> k \<le> d)" by blast
  with assms(1) show ?thesis unfolding sp_base_def by simp
qed

lemma sp_base_heap:
  assumes "sp_base g src dist prev pq" "(d, u) \<in> set pq"
  shows "\<exists>k. dist u = Some (Fin k) \<and> k \<le> d"
proof -
  from assms(1) have
    H1: "\<forall>d u. (d, u) \<in> set pq \<longrightarrow> (\<exists>k. dist u = Some (Fin k) \<and> k \<le> d)"
    unfolding sp_base_def by (elim conjE)
  with assms(2) show ?thesis by blast
qed

lemma sp_relaxedD:
  assumes "sp_relaxed g dist pq u todo" "dist x = Some (Fin k)" "(k, x) \<notin> set pq"
    "weight_of g x v = Some w"
  shows "(x = u \<and> (v, w) \<in> set todo) \<or> (\<exists>k'. dist v = Some (Fin k') \<and> k' \<le> k + w)"
  using assms unfolding sp_relaxed_def by fast

lemma sp_relaxedI:
  assumes "\<And>x k v w. dist x = Some (Fin k) \<Longrightarrow> (k, x) \<notin> set pq \<Longrightarrow>
      weight_of g x v = Some w \<Longrightarrow>
      (x = u \<and> (v, w) \<in> set todo) \<or> (\<exists>k'. dist v = Some (Fin k') \<and> k' \<le> k + w)"
  shows "sp_relaxed g dist pq u todo"
  unfolding sp_relaxed_def using assms by fast

lemma inv_pop:
  assumes inv: "sp_inv g src (dist, prev, pq)" and pop: "heappop pq = Some ((d, u), pq')"
  shows "\<exists>k. dist u = Some (Fin k) \<and> k \<le> d \<and>
             (k < d \<longrightarrow> sp_inv g src (dist, prev, pq')) \<and>
             (k = d \<longrightarrow> sp_mid g src d u (neighbors g u) (dist, prev, pq'))"
proof -
  note hp = heappop_Some[OF pop]
  from inv have base: "sp_base g src dist prev pq" and tree: "sp_tree g dist prev"
    and setl: "sp_settled dist prev pq" and rel: "sp_relaxed g dist pq src []"
    by (simp_all add: sp_inv_def)
  have sub: "set pq' \<subseteq> set pq" unfolding hp(3) by (rule set_remove1_subset)
  have keep: "x \<in> set pq \<Longrightarrow> x \<noteq> (d, u) \<Longrightarrow> x \<in> set pq'" for x
    unfolding hp(3) by simp
  from sp_base_heap[OF base hp(1)] obtain k where k: "dist u = Some (Fin k)" "k \<le> d"
    by blast
  have base': "sp_base g src dist prev pq'"
    by (rule sp_base_mono[OF base sub])
  have A: "sp_inv g src (dist, prev, pq')" if "k < d"
  proof -
    have "sp_settled dist prev pq'"
      unfolding sp_settled_def
    proof (intro allI impI)
      fix v y ky d' x
      assume "prev v = Some (Some y)" "dist y = Some (Fin ky)" "(d', x) \<in> set pq'"
      moreover from this(3) sub have "(d', x) \<in> set pq" by (rule subsetD[rotated])
      ultimately show "ky \<le> d'" using setl unfolding sp_settled_def by fast
    qed
    moreover have "sp_relaxed g dist pq' src []"
    proof (rule sp_relaxedI)
      fix x j v w
      assume dx: "dist x = Some (Fin j)" and nin: "(j, x) \<notin> set pq'"
        and e: "weight_of g x v = Some w"
      have "(j, x) \<noteq> (d, u)" using dx k that by auto
      with keep nin have "(j, x) \<notin> set pq" by blast
      from sp_relaxedD[OF rel dx this e]
      show "(x = src \<and> (v, w) \<in> set []) \<or> (\<exists>k'. dist v = Some (Fin k') \<and> k' \<le> j + w)" .
    qed
    ultimately show ?thesis using base' tree by (simp add: sp_inv_def)
  qed
  have B: "sp_mid g src d u (neighbors g u) (dist, prev, pq')" if "k = d"
  proof -
    have "sp_low dist prev d"
      unfolding sp_low_def
    proof (intro allI impI)
      fix v y ky
      assume "prev v = Some (Some y)" "dist y = Some (Fin ky)"
      with hp(1) show "ky \<le> d" using setl unfolding sp_settled_def by fast
    qed
    moreover have "\<forall>d' x. (d', x) \<in> set pq' \<longrightarrow> d \<le> d'"
    proof (intro allI impI)
      fix d' x assume "(d', x) \<in> set pq'"
      with sub have "(d', x) \<in> set pq" by (rule subsetD)
      with hp(2) have "(d, u) \<le> (d', x)" by (rule bspec)
      then show "d \<le> d'" by (rule pair_le_fst)
    qed
    moreover have "sp_relaxed g dist pq' u (neighbors g u)"
    proof (rule sp_relaxedI)
      fix x j v w
      assume dx: "dist x = Some (Fin j)" and nin: "(j, x) \<notin> set pq'"
        and e: "weight_of g x v = Some w"
      show "(x = u \<and> (v, w) \<in> set (neighbors g u)) \<or>
            (\<exists>k'. dist v = Some (Fin k') \<and> k' \<le> j + w)"
      proof (cases "x = u")
        case True
        with weight_of_nbrs[OF e] show ?thesis by simp
      next
        case False
        then have "(j, x) \<noteq> (d, u)" by simp
        with keep nin have "(j, x) \<notin> set pq" by blast
        from sp_relaxedD[OF rel dx this e] show ?thesis by simp
      qed
    qed
    ultimately show ?thesis using base' tree k that by (simp add: sp_mid_def)
  qed
  from k A B show ?thesis by blast
qed

lemma wf_sp_rel: "wf (sp_rel g src)"
  unfolding sp_rel_def by (intro wf_inv_image wf_lex_prod wf_pot_less) simp

lemma dijkstra_loop_total:
  assumes ok: "graph_ok g"
  shows "sp_inv g src s \<Longrightarrow>
         \<exists>dist prev. dijkstra_loop g s = Some (Inr (dist, prev)) \<and> sp_inv g src (dist, prev, [])"
proof (induction s rule: wf_induct_rule[OF wf_sp_rel[of g src]])
  case (1 s)
  obtain dist prev pq where s: "s = (dist, prev, pq)" by (cases s)
  show ?case
  proof (cases "heappop pq")
    case None
    then have "pq = []" by (simp add: heappop_None)
    moreover from None have "dijkstra_loop g s = Some (Inr (dist, prev))"
      by (subst dijkstra_loop.simps) (simp add: s)
    ultimately show ?thesis using "1.prems" s by auto
  next
    case (Some a)
    obtain d u pq' where a: "a = ((d, u), pq')" by (cases a) auto
    from Some a have pop: "heappop pq = Some ((d, u), pq')" by simp
    from "1.prems" have inv: "sp_inv g src (dist, prev, pq)" by (simp add: s)
    from inv_pop[OF inv pop] obtain k where k: "dist u = Some (Fin k)" "k \<le> d"
      "k < d \<longrightarrow> sp_inv g src (dist, prev, pq')"
      "k = d \<longrightarrow> sp_mid g src d u (neighbors g u) (dist, prev, pq')" by blast
    from heappop_Some(4)[OF pop] have len: "length pq' < length pq" by simp
    show ?thesis
    proof (cases "k < d")
      case True
      have "((dist, prev, pq'), s) \<in> sp_rel g src"
        using len by (simp add: sp_rel_def s)
      from "1.IH"[OF this] k(3) True obtain dist' prev' where
        r: "dijkstra_loop g (dist, prev, pq') = Some (Inr (dist', prev'))"
           "sp_inv g src (dist', prev', [])" by blast
      have "dijkstra_loop g s = dijkstra_loop g (dist, prev, pq')"
        by (subst dijkstra_loop.simps) (simp add: s pop k(1) True)
      with r show ?thesis by auto
    next
      case False
      with k(2) have kd: "k = d" by simp
      with k(4) have mid: "sp_mid g src d u (neighbors g u) (dist, prev, pq')" by simp
      from relax_all_ok[OF ok mid] obtain s' where
        s': "relax_all d u (neighbors g u) (dist, prev, pq') = Inr s'"
            "sp_mid g src d u [] s'"
            "s' = (dist, prev, pq') \<or>
             (sp_pot g src (fst s'), sp_pot g src dist) \<in> pot_less" by auto
      from s'(3) have "(s', s) \<in> sp_rel g src"
        using len by (auto simp: sp_rel_def s)
      from "1.IH"[OF this mid_to_inv[OF s'(2)]] obtain dist' prev' where
        r: "dijkstra_loop g s' = Some (Inr (dist', prev'))"
           "sp_inv g src (dist', prev', [])" by blast
      have "dijkstra_loop g s = dijkstra_loop g s'"
        by (subst dijkstra_loop.simps) (simp add: s pop k(1) kd s'(1))
      with r show ?thesis by auto
    qed
  qed
qed

lemma map_of_const: "map_of (map (\<lambda>n. (n, c)) xs) v = (if v \<in> set xs then Some c else None)"
  by (induction xs) auto

lemma init_dist_apply:
  "init_dist g src v =
     (if v = src then Some (Fin 0) else if v \<in> set (nodes g) then Some PInf else None)"
  by (simp add: init_dist_def map_of_const)

lemma init_prev_apply: "init_prev g v = (if v \<in> set (nodes g) then Some None else None)"
  by (simp add: init_prev_def map_of_const)

lemma sp_inv_init: "sp_inv g src (init_dist g src, init_prev g, [(0, src)])"
proof -
  have "sp_base g src (init_dist g src) (init_prev g) [(0, src)]"
    unfolding sp_base_def
    by (auto simp: init_dist_apply init_prev_apply dom_def split: if_splits)
  moreover have "sp_tree g (init_dist g src) (init_prev g)"
    unfolding sp_tree_def by (simp add: init_prev_apply)
  moreover have "sp_settled (init_dist g src) (init_prev g) [(0, src)]"
    unfolding sp_settled_def by (simp add: init_prev_apply)
  moreover have "sp_relaxed g (init_dist g src) [(0, src)] src []"
    by (rule sp_relaxedI) (auto simp: init_dist_apply split: if_splits)
  ultimately show ?thesis by (simp add: sp_inv_def)
qed

lemma compute_shortest_paths_total:
  assumes "graph_ok g"
  shows "\<exists>dist prev. compute_shortest_paths g src = Some (Inr (dist, prev)) \<and>
           sp_inv g src (dist, prev, [])"
  unfolding compute_shortest_paths_def
  by (rule dijkstra_loop_total[OF assms sp_inv_init])

lemma valid_path_snoc:
  "valid_path g p \<Longrightarrow> weight_of g (last p) v = Some w \<Longrightarrow> valid_path g (p @ [v])"
  by (induction g p rule: valid_path.induct) auto

lemma path_weight_snoc:
  "valid_path g p \<Longrightarrow> weight_of g (last p) v = Some w \<Longrightarrow>
   path_weight g (p @ [v]) = path_weight g p + w"
  by (induction g p rule: valid_path.induct) auto

lemma hd_snoc: "p \<noteq> [] \<Longrightarrow> hd (p @ [v]) = hd p"
  by simp

lemma valid_path_nonempty: "valid_path g p \<Longrightarrow> p \<noteq> []"
  by (cases p) auto

text \<open>Once the heap is empty every edge is relaxed: distances lie below every path.\<close>

lemma final_lower:
  "valid_path g p \<Longrightarrow> dist (hd p) = Some (Fin ka) \<Longrightarrow> sp_relaxed g dist [] u [] \<Longrightarrow>
   \<exists>k. dist (last p) = Some (Fin k) \<and> k \<le> ka + path_weight g p"
proof (induction g p arbitrary: ka rule: valid_path.induct)
  case (1 g)
  then show ?case by simp
next
  case (2 g x)
  then show ?case by simp
next
  case (3 g x y rest)
  from "3.prems"(1) obtain w where w: "weight_of g x y = Some w" by auto
  from "3.prems"(2) have dx: "dist x = Some (Fin ka)" by simp
  from sp_relaxedD[OF "3.prems"(3) dx _ w] obtain ky where
    ky: "dist y = Some (Fin ky)" "ky \<le> ka + w" by auto
  from "3.prems"(1) have vp: "valid_path g (y # rest)" by simp
  from "3.IH"[OF vp _ "3.prems"(3), of ky] ky(1) obtain k where
    "dist (last (y # rest)) = Some (Fin k)" "k \<le> ky + path_weight g (y # rest)" by auto
  with ky(2) w show ?case by auto
qed

lemma sp_base_facts:
  assumes "sp_base g src dist prev pq"
  shows "dom dist = set (nodes g) \<union> {src}" "dom prev = set (nodes g)"
    "dist src = Some (Fin 0)"
    "\<And>u. prev src \<noteq> Some (Some u)"
    "\<And>v k. dist v = Some (Fin k) \<Longrightarrow> v \<noteq> src \<Longrightarrow> \<exists>u. prev v = Some (Some u)"
    "\<And>v u. prev v = Some (Some u) \<Longrightarrow> reach prev src u"
  using assms unfolding sp_base_def by blast+

lemma reach_fin:
  assumes base: "sp_base g src dist prev pq" and dv: "dist v = Some (Fin k)"
  shows "reach prev src v"
proof (cases "v = src")
  case True
  then show ?thesis by (simp add: reach.reach_src)
next
  case False
  from sp_base_facts(5)[OF base dv False] obtain u where u: "prev v = Some (Some u)" by blast
  from reach.reach_step[OF u sp_base_facts(6)[OF base u]] show ?thesis .
qed

text \<open>The predecessor walk ends at the source and spells out a path of the recorded length.\<close>

lemma walk_back_reach:
  assumes base: "sp_base g src dist prev pq" and tree: "sp_tree g dist prev"
    and sn: "src \<in> set (nodes g)"
  shows "reach prev src v \<Longrightarrow>
         \<exists>q. walk_back prev (Some v) acc = Some (Inr (acc @ q)) \<and>
             path_between g src v (rev q) \<and> dist v = Some (Fin (path_weight g (rev q)))"
proof (induction arbitrary: acc rule: reach.induct)
  case reach_src
  from sp_base_facts(2)[OF base] sn obtain x where "prev src = Some x" by blast
  with sp_base_facts(4)[OF base] have ps: "prev src = Some None" by (cases x) auto
  have "walk_back prev (Some src) acc = Some (Inr (acc @ [src]))"
    by (subst walk_back.simps, simp add: ps, subst walk_back.simps, simp)
  with sp_base_facts(3)[OF base] show ?case by (auto simp: path_between_def)
next
  case (reach_step v u)
  from reach_step.IH[of "acc @ [v]"] obtain q where
    q: "walk_back prev (Some u) (acc @ [v]) = Some (Inr ((acc @ [v]) @ q))"
       "path_between g src u (rev q)" "dist u = Some (Fin (path_weight g (rev q)))" by blast
  from tree reach_step.hyps(1) obtain ku w where
    e: "dist u = Some (Fin ku)" "weight_of g u v = Some w" "dist v = Some (Fin (ku + w))"
    unfolding sp_tree_def by blast
  from q(2) have vp: "valid_path g (rev q)" and h: "hd (rev q) = src" and l: "last (rev q) = u"
    by (simp_all add: path_between_def)
  from e(2) l have e': "weight_of g (last (rev q)) v = Some w" by simp
  have "walk_back prev (Some v) acc = Some (Inr (acc @ (v # q)))"
    by (subst walk_back.simps) (simp add: reach_step.hyps(1) q(1))
  moreover have "path_between g src v (rev (v # q))"
    using valid_path_snoc[OF vp e'] h valid_path_nonempty[OF vp]
    by (simp add: path_between_def)
  moreover have "dist v = Some (Fin (path_weight g (rev (v # q))))"
    using path_weight_snoc[OF vp e'] e(1,3) q(3) by simp
  ultimately show ?case by blast
qed

lemma final_shortest:
  assumes ok: "graph_ok g" and inv: "sp_inv g src (dist, prev, [])"
    and sn: "src \<in> set (nodes g)" and dv: "dist v = Some x"
  shows "shortest_dist g src v x"
proof -
  from inv have base: "sp_base g src dist prev []" and tree: "sp_tree g dist prev"
    and rel: "sp_relaxed g dist [] src []" by (simp_all add: sp_inv_def)
  have low: "\<exists>k. dist v = Some (Fin k) \<and> k \<le> path_weight g p" if "path_between g src v p" for p
  proof -
    from that have vp: "valid_path g p" and h: "hd p = src" and l: "last p = v"
      by (simp_all add: path_between_def)
    from sp_base_facts(3)[OF base] h have "dist (hd p) = Some (Fin 0)" by simp
    from final_lower[OF vp this rel] l show ?thesis by simp
  qed
  show ?thesis
  proof (cases x)
    case PInf
    with dv low show ?thesis by (fastforce simp: shortest_dist_def)
  next
    case (Fin k)
    with dv have dk: "dist v = Some (Fin k)" by simp
    from walk_back_reach[OF base tree sn reach_fin[OF base dk], of "[]"] obtain q where
      "path_between g src v (rev q)" "dist v = Some (Fin (path_weight g (rev q)))" by blast
    with dk have "\<exists>p. path_between g src v p \<and> path_weight g p = k" by auto
    moreover have "\<forall>p. path_between g src v p \<longrightarrow> k \<le> path_weight g p"
      using low dk by fastforce
    ultimately show ?thesis by (simp add: shortest_dist_def Fin)
  qed
qed

lemma shortest_dist_unique: "shortest_dist g s t x \<Longrightarrow> shortest_dist g s t y \<Longrightarrow> x = y"
  by (cases x; cases y) (auto simp: shortest_dist_def dest: order_antisym)

section \<open>Correctness of the flow-table synthesizer\<close>

lemma shuffle_loop_mset:
  "k < length xs \<Longrightarrow> mset (fst (shuffle_loop k xs r)) = mset xs"
proof (induction k arbitrary: xs r)
  case 0
  then show ?case by simp
next
  case (Suc k)
  obtain j r' where jr: "randbelow r (Suc (Suc k)) = (j, r')"
    by (cases "randbelow r (Suc (Suc k))")
  then have "j < Suc k + 1" by (auto simp: randbelow_def split: prod.splits)
  with Suc.prems have j: "j < length xs" by simp
  let ?ys = "xs[Suc k := xs ! j, j := xs ! Suc k]"
  have "mset ?ys = mset xs" using mset_swap[OF j Suc.prems] .
  moreover have "k < length ?ys" using Suc.prems by simp
  ultimately have "mset (fst (shuffle_loop k ?ys r')) = mset xs" using Suc.IH by simp
  then show ?case by (simp add: jr)
qed

lemma shuffle_mset: "mset (fst (shuffle xs r)) = mset xs"
proof (cases xs)
  case Nil
  then show ?thesis by (simp add: shuffle_def)
next
  case (Cons a list)
  then have "length xs - 1 < length xs" by simp
  then show ?thesis unfolding shuffle_def by (rule shuffle_loop_mset)
qed

lemma set_priority_fields:
  "match_dst (set_priority flows dst e) = match_dst e"
  "action (set_priority flows dst e) = action e"
  "backup (set_priority flows dst e) = backup e"
  unfolding set_priority_def by (induction flows arbitrary: e; auto)+

lemma set_priority_value:
  "priority (set_priority flows dst e) =
     (if \<exists>f \<in> set flows. snd f = dst then High else priority e)"
  unfolding set_priority_def by (induction flows arbitrary: e) auto

lemma set_backup_fields:
  "match_dst (set_backup flows crit ps e) = match_dst e"
  "action (set_backup flows crit ps e) = action e"
  "priority (set_backup flows crit ps e) = priority e"
  unfolding set_backup_def by (induction flows arbitrary: e; auto)+

lemma set_backup_value:
  "backup (set_backup flows crit ps e) =
     (if (\<exists>f \<in> set flows. f \<in> crit) \<and> length ps > 1 then Some (drop 1 ps) else backup e)"
  unfolding set_backup_def by (induction flows arbitrary: e) auto

lemma pn_add_error: "pn_add x w = Inl e \<Longrightarrow> e = OverflowError \<and> x = PInf \<and> \<not> fits_float w"
  by (cases x) (auto split: if_splits)

lemma pn_add_ok: "x = PInf \<longrightarrow> fits_float w \<Longrightarrow> \<exists>s. pn_add x w = Inr s"
  by (cases x) auto

text \<open>
  The loop raises as soon as a neighbour at infinite distance carries a weight that does not
  convert to a float; otherwise it returns the neighbours that pass the test, in order.
\<close>

lemma next_hops_loop_eq:
  "next_hops_loop dist dst nb nxt =
     (if \<exists>(v, w) \<in> set nb. dist_get dist v = PInf \<and> \<not> fits_float w then Inl OverflowError
      else Inr (nxt @ map fst (filter (\<lambda>(v, w). pn_add (dist_get dist v) w =
                                          Inr (dist_get dist dst)) nb)))"
proof (induction nb arbitrary: nxt)
  case Nil
  show ?case by simp
next
  case (Cons vw nb)
  obtain v w where vw: "vw = (v, w)" by (cases vw)
  show ?case
  proof (cases "pn_add (dist_get dist v) w")
    case (Inl e)
    from pn_add_error[OF Inl] have "e = OverflowError" "dist_get dist v = PInf" "\<not> fits_float w"
      by simp_all
    with Inl show ?thesis by (simp add: vw)
  next
    case (Inr s)
    then have "\<not> (dist_get dist v = PInf \<and> \<not> fits_float w)"
      by (cases "dist_get dist v") (auto split: if_splits)
    with Inr Cons.IH show ?thesis by (auto simp: vw)
  qed
qed

lemma next_hops_finite:
  assumes "nbrs_finite g sw dist"
  shows "compute_equal_cost_next_hops g sw dst dist =
           Inr (map fst (filter (\<lambda>(v, w). pn_add (dist_get dist v) w = Inr (dist_get dist dst))
                           (neighbors g sw)))"
proof -
  from assms have "\<not> (\<exists>(v, w) \<in> set (neighbors g sw). dist_get dist v = PInf \<and> \<not> fits_float w)"
    unfolding nbrs_finite_def by blast
  then show ?thesis unfolding compute_equal_cost_next_hops_def next_hops_loop_eq by simp
qed

lemma build_entry_fields:
  assumes "build_entry g flows crit sw dist dst r = Inr (e, r')"
  shows "match_dst e = dst"
    and "\<exists>hops. compute_equal_cost_next_hops g sw dst dist = Inr hops \<and>
                mset (action e) = mset hops"
    and "priority e = (if \<exists>f \<in> set flows. snd f = dst then High else Normal)"
    and "backup e =
           (if (\<exists>f \<in> set flows. f \<in> crit) \<and> length (action e) > 1
            then Some (drop 1 (action e)) else None)"
proof -
  from assms obtain hops where hops: "compute_equal_cost_next_hops g sw dst dist = Inr hops"
    by (cases "compute_equal_cost_next_hops g sw dst dist") (simp_all add: build_entry_def)
  obtain ps r1 where sh: "shuffle hops r = (ps, r1)" by (cases "shuffle hops r")
  from assms have e: "e = set_backup flows crit ps (set_priority flows dst
             \<lparr>match_dst = dst, action = ps, priority = Normal, backup = None\<rparr>)"
    by (simp add: build_entry_def hops sh)
  have ps: "mset ps = mset hops" using shuffle_mset[of hops r] by (simp add: sh)
  have act: "action e = ps" by (simp add: e set_backup_fields set_priority_fields)
  show "match_dst e = dst" by (simp add: e set_backup_fields set_priority_fields)
  show "\<exists>hops. compute_equal_cost_next_hops g sw dst dist = Inr hops \<and>
                mset (action e) = mset hops"
    using ps act hops by simp
  show "priority e = (if \<exists>f \<in> set flows. snd f = dst then High else Normal)"
    by (simp add: e set_backup_fields set_priority_value)
  show "backup e =
           (if (\<exists>f \<in> set flows. f \<in> crit) \<and> length (action e) > 1
            then Some (drop 1 (action e)) else None)"
    unfolding act by (simp add: e set_backup_value set_priority_fields)
qed

lemma build_entry_ok:
  assumes "nbrs_finite g sw dist"
  shows "\<exists>e r'. build_entry g flows crit sw dist dst r = Inr (e, r')"
  unfolding build_entry_def next_hops_finite[OF assms]
  by (simp split: prod.splits)

lemma sp_dist_eq:
  "compute_shortest_paths g sw = Some (Inr (dist, prev)) \<Longrightarrow> sp_dist g sw = dist"
  by (simp add: sp_dist_def)

lemma sp_dist_dom:
  assumes "graph_ok g"
  shows "dom (sp_dist g sw) = set (nodes g) \<union> {sw}"
proof -
  from compute_shortest_paths_total[OF assms, of sw] obtain dist prev where
    sp: "compute_shortest_paths g sw = Some (Inr (dist, prev))"
    and inv: "sp_inv g sw (dist, prev, [])" by blast
  from inv have "sp_base g sw dist prev []" by (simp add: sp_inv_def)
  from sp_base_facts(1)[OF this] sp_dist_eq[OF sp] show ?thesis by simp
qed

text \<open>In the map computed with source \<open>sw\<close> every neighbour of \<open>sw\<close> is at finite distance.\<close>

lemma sp_dist_nbrs_finite:
  assumes ok: "graph_ok g"
  shows "nbrs_finite g sw (sp_dist g sw)"
proof -
  from compute_shortest_paths_total[OF ok, of sw] obtain dist prev where
    sp: "compute_shortest_paths g sw = Some (Inr (dist, prev))"
    and inv: "sp_inv g sw (dist, prev, [])" by blast
  from inv have base: "sp_base g sw dist prev []" and rel: "sp_relaxed g dist [] sw []"
    by (simp_all add: sp_inv_def)
  have "dist_get dist v \<noteq> PInf" if vw: "(v, w) \<in> set (neighbors g sw)" for v w
  proof -
    from graph_ok_nbrs(1)[OF ok vw] have e: "weight_of g sw v = Some w" .
    from sp_relaxedD[OF rel sp_base_facts(3)[OF base] _ e] obtain k where
      "dist v = Some (Fin k)" by auto
    then show ?thesis by (simp add: dist_get_def)
  qed
  then show ?thesis unfolding nbrs_finite_def sp_dist_eq[OF sp] by blast
qed

lemma all_dists_ok:
  assumes "graph_ok g"
  shows "all_dists g ns = Some (Inr (map (\<lambda>sw. (sw, sp_dist g sw)) ns))"
proof (induction ns)
  case Nil
  show ?case by simp
next
  case (Cons sw ns)
  from compute_shortest_paths_total[OF assms, of sw] obtain dist prev where
    sp: "compute_shortest_paths g sw = Some (Inr (dist, prev))" by blast
  with Cons sp_dist_eq[OF sp] show ?case by simp
qed

lemma map_of_tabulate: "sw \<in> set ns \<Longrightarrow> map_of (map (\<lambda>sw. (sw, f sw)) ns) sw = Some (f sw)"
  by (induction ns) auto

lemma switch_entries_ok:
  assumes nf: "nbrs_finite g sw dist" and "\<forall>n \<in> set ns. n \<noteq> sw \<longrightarrow> dist n \<noteq> None"
  shows "\<exists>es r'. switch_entries g flows crit sw dist ns r = Inr (es, r') \<and>
           list_all2 (built g flows crit sw dist) es
             (filter (\<lambda>dst. dst \<noteq> sw \<and> dist dst \<noteq> Some PInf) ns)"
  using assms(2)
proof (induction ns arbitrary: r)
  case Nil
  show ?case by simp
next
  case (Cons dst ns)
  then have IH: "\<And>r. \<exists>es r'. switch_entries g flows crit sw dist ns r = Inr (es, r') \<and>
           list_all2 (built g flows crit sw dist) es
             (filter (\<lambda>dst. dst \<noteq> sw \<and> dist dst \<noteq> Some PInf) ns)" by simp
  show ?case
  proof (cases "dst = sw")
    case True
    with IH[of r] show ?thesis by simp
  next
    case False
    with Cons.prems obtain x where x: "dist dst = Some x" by auto
    show ?thesis
    proof (cases "x = PInf")
      case True
      with IH[of r] False x show ?thesis by simp
    next
      case xf: False
      from build_entry_ok[OF nf, of flows crit dst r] obtain e r1 where
        be: "build_entry g flows crit sw dist dst r = Inr (e, r1)" by blast
      from IH[of r1] obtain es r' where
        es: "switch_entries g flows crit sw dist ns r1 = Inr (es, r')"
            "list_all2 (built g flows crit sw dist) es
               (filter (\<lambda>dst. dst \<noteq> sw \<and> dist dst \<noteq> Some PInf) ns)" by blast
      have "switch_entries g flows crit sw dist (dst # ns) r = Inr (e # es, r')"
        using False x xf be es(1) by simp
      moreover have "built g flows crit sw dist e dst"
        unfolding built_def using be by blast
      ultimately show ?thesis using es(2) False x xf by simp
    qed
  qed
qed

lemma build_tables_ok:
  assumes "\<forall>sw \<in> set sws. \<exists>dist. map_of ad sw = Some dist \<and> nbrs_finite g sw dist \<and>
             (\<forall>n \<in> set (nodes g). n \<noteq> sw \<longrightarrow> dist n \<noteq> None)"
  shows "\<exists>ts r'. build_tables g flows crit ad sws r = Inr (ts, r') \<and>
           list_all2 (\<lambda>t sw. fst t = sw \<and>
               (\<exists>dist. map_of ad sw = Some dist \<and>
                  list_all2 (built g flows crit sw dist)
                    (snd t) (filter (\<lambda>dst. dst \<noteq> sw \<and> dist dst \<noteq> Some PInf) (nodes g))))
             ts sws"
  using assms
proof (induction sws arbitrary: r)
  case Nil
  show ?case by simp
next
  case (Cons sw sws)
  from Cons.prems obtain dist where d: "map_of ad sw = Some dist"
    "\<forall>n \<in> set (nodes g). n \<noteq> sw \<longrightarrow> dist n \<noteq> None" "nbrs_finite g sw dist" by auto
  from switch_entries_ok[OF d(3,2), of flows crit r] obtain es r1 where
    es: "switch_entries g flows crit sw dist (nodes g) r = Inr (es, r1)"
        "list_all2 (built g flows crit sw dist) es
           (filter (\<lambda>dst. dst \<noteq> sw \<and> dist dst \<noteq> Some PInf) (nodes g))" by blast
  from Cons.IH[of r1] Cons.prems obtain ts r' where
    ts: "build_tables g flows crit ad sws r1 = Inr (ts, r')"
        "list_all2 (\<lambda>t sw. fst t = sw \<and>
               (\<exists>dist. map_of ad sw = Some dist \<and>
                  list_all2 (built g flows crit sw dist)
                    (snd t) (filter (\<lambda>dst. dst \<noteq> sw \<and> dist dst \<noteq> Some PInf) (nodes g))))
             ts sws" by auto
  have "build_tables g flows crit ad (sw # sws) r = Inr ((sw, es) # ts, r')"
    using d(1) es(1) ts(1) by simp
  then show ?case using d(1) es(2) ts(2) by simp
qed

lemma table_lookup:
  assumes "list_all2 (\<lambda>t sw. fst t = sw \<and> P sw (snd t)) ts sws" "sw \<in> set sws"
  shows "\<exists>es. map_of ts sw = Some es \<and> P sw es"
  using assms
proof (induction ts sws rule: list_all2_induct)
  case Nil
  then show ?case by simp
next
  case (Cons t ts s sws)
  then show ?case by (cases t) auto
qed

text \<open>
  On a well-formed topology \<open>install_flows\<close> returns, changes only the flow tables,
  and the table of every switch holds, in node order, one entry built by \<open>build_entry\<close>
  for each reachable destination other than the switch itself.
\<close>

lemma install_flows_tables:
  assumes ok: "graph_ok (topo c)"
  shows "\<exists>ts r'. install_flows c r = Some (Inr (c\<lparr>flow_tables := ts\<rparr>, r')) \<and>
           (\<forall>sw \<in> set (nodes (topo c)). \<exists>es. map_of ts sw = Some es \<and>
              list_all2 (entry_of (topo c) (active_flows c) (critical_flows c) sw) es
                (dests (topo c) sw))"
proof -
  let ?g = "topo c"
  let ?ad = "map (\<lambda>sw. (sw, sp_dist ?g sw)) (nodes ?g)"
  have ad: "all_dists ?g (nodes ?g) = Some (Inr ?ad)" by (rule all_dists_ok[OF ok])
  have pre: "\<forall>sw \<in> set (nodes ?g). \<exists>dist. map_of ?ad sw = Some dist \<and>
             nbrs_finite ?g sw dist \<and>
             (\<forall>n \<in> set (nodes ?g). n \<noteq> sw \<longrightarrow> dist n \<noteq> None)"
  proof
    fix sw assume sw: "sw \<in> set (nodes ?g)"
    have "\<forall>n \<in> set (nodes ?g). n \<noteq> sw \<longrightarrow> sp_dist ?g sw n \<noteq> None"
      using sp_dist_dom[OF ok, of sw] by blast
    with map_of_tabulate[OF sw, of "sp_dist ?g"] sp_dist_nbrs_finite[OF ok, of sw]
    show "\<exists>dist. map_of ?ad sw = Some dist \<and> nbrs_finite ?g sw dist \<and>
             (\<forall>n \<in> set (nodes ?g). n \<noteq> sw \<longrightarrow> dist n \<noteq> None)" by blast
  qed
  from build_tables_ok[OF pre, of "active_flows c" "critical_flows c" r] obtain ts r' where
    ts: "build_tables ?g (active_flows c) (critical_flows c) ?ad (nodes ?g) r = Inr (ts, r')"
    and all: "list_all2 (\<lambda>t sw. fst t = sw \<and>
               (\<exists>dist. map_of ?ad sw = Some dist \<and>
                  list_all2 (built ?g (active_flows c) (critical_flows c) sw dist)
                    (snd t) (filter (\<lambda>dst. dst \<noteq> sw \<and> dist dst \<noteq> Some PInf) (nodes ?g))))
             ts (nodes ?g)" by blast
  have "install_flows c r = Some (Inr (c\<lparr>flow_tables := ts\<rparr>, r'))"
    by (simp add: install_flows_def ad ts)
  moreover have "\<exists>es. map_of ts sw = Some es \<and>
      list_all2 (entry_of ?g (active_flows c) (critical_flows c) sw) es (dests ?g sw)"
    if sw: "sw \<in> set (nodes ?g)" for sw
  proof -
    from table_lookup[OF all sw] obtain es dist where
      es: "map_of ts sw = Some es" "map_of ?ad sw = Some dist"
        "list_all2 (built ?g (active_flows c) (critical_flows c) sw dist)
           es (filter (\<lambda>dst. dst \<noteq> sw \<and> dist dst \<noteq> Some PInf) (nodes ?g))" by blast
    from es(2) map_of_tabulate[OF sw, of "sp_dist ?g"] have "dist = sp_dist ?g sw" by simp
    with es(1,3) show ?thesis unfolding entry_of_def[abs_def] dests_def by simp
  qed
  ultimately show ?thesis by blast
qed

lemma filter_key_unique:
  assumes "list_all2 P es ds" "distinct ds" "\<And>e d. P e d \<Longrightarrow> f e = d"
  shows "(d \<in> set ds \<longrightarrow> (\<exists>e. filter (\<lambda>e. f e = d) es = [e] \<and> P e d)) \<and>
         (d \<notin> set ds \<longrightarrow> filter (\<lambda>e. f e = d) es = [])"
  using assms(1,2)
proof (induction es ds rule: list_all2_induct)
  case Nil
  show ?case by simp
next
  case (Cons e es d' ds)
  from Cons.prems have nd: "d' \<notin> set ds" and dd: "distinct ds" by simp_all
  from assms(3)[OF Cons.hyps(1)] have fe: "f e = d'" .
  show ?case
  proof (cases "d = d'")
    case True
    with nd Cons.IH[OF dd] have "filter (\<lambda>e. f e = d) es = []" by simp
    with True fe Cons.hyps(1) show ?thesis by simp
  next
    case False
    with fe Cons.IH[OF dd] show ?thesis by simp
  qed
qed

lemma list_all2_fst: "list_all2 (\<lambda>t sw. fst t = sw \<and> P sw t) ts sws \<Longrightarrow> map fst ts = sws"
  by (induction ts sws rule: list_all2_induct) auto

lemma graph_ok_distinct: "graph_ok g \<Longrightarrow> distinct (nodes g)"
  by (simp add: graph_ok_def nodes_def)

lemma sp_dist_shortest:
  assumes ok: "graph_ok g" and sw: "sw \<in> set (nodes g)" and v: "v \<in> set (nodes g)"
  shows "\<exists>x. sp_dist g sw v = Some x \<and> shortest_dist g sw v x"
proof -
  from compute_shortest_paths_total[OF ok, of sw] obtain dist prev where
    sp: "compute_shortest_paths g sw = Some (Inr (dist, prev))"
    and inv: "sp_inv g sw (dist, prev, [])" by blast
  from sp_dist_dom[OF ok, of sw] v obtain x where x: "sp_dist g sw v = Some x" by blast
  with sp_dist_eq[OF sp] have "dist v = Some x" by simp
  from final_shortest[OF ok inv sw this] x show ?thesis by simp
qed

lemma dests_iff:
  assumes ok: "graph_ok g" and sw: "sw \<in> set (nodes g)"
  shows "dst \<in> set (dests g sw) \<longleftrightarrow>
         dst \<in> set (nodes g) \<and> dst \<noteq> sw \<and> (\<exists>p. path_between g sw dst p)"
proof (cases "dst \<in> set (nodes g)")
  case True
  from sp_dist_shortest[OF ok sw True] obtain x where
    x: "sp_dist g sw dst = Some x" "shortest_dist g sw dst x" by blast
  have "x \<noteq> PInf \<longleftrightarrow> (\<exists>p. path_between g sw dst p)"
    using x(2) by (cases x) (auto simp: shortest_dist_def)
  with True x(1) show ?thesis by (auto simp: dests_def)
next
  case False
  then show ?thesis by (simp add: dests_def)
qed

lemma build_tables_keys:
  "build_tables g flows crit ad sws r = Inr (ts, r') \<Longrightarrow> map fst ts = sws"
proof (induction sws arbitrary: r ts)
  case Nil
  then show ?case by simp
next
  case (Cons sw sws)
  then show ?case
    by (fastforce split: option.splits sum.splits prod.splits)
qed

lemma install_flows_keys:
  assumes "install_flows c r = Some (Inr (c', r'))"
  shows "map fst (flow_tables c') = nodes (topo c)"
proof -
  from assms obtain ad where ad: "all_dists (topo c) (nodes (topo c)) = Some (Inr ad)"
    by (auto simp: install_flows_def split: option.splits sum.splits)
  with assms obtain ts where
    ts: "build_tables (topo c) (active_flows c) (critical_flows c) ad (nodes (topo c)) r
           = Inr (ts, r')" and c': "c' = c\<lparr>flow_tables := ts\<rparr>"
    by (auto simp: install_flows_def split: sum.splits)
  from build_tables_keys[OF ts] c' show ?thesis by simp
qed

text \<open>
  The table of a switch holds exactly one entry for each reachable destination other than
  the switch, none for any other destination, and that entry is the one \<open>build_entry\<close>
  makes from the switch's own distance map.
\<close>

lemma install_flows_entry:
  assumes ok: "graph_ok (topo c)"
  shows "\<exists>ts r'. install_flows c r = Some (Inr (c\<lparr>flow_tables := ts\<rparr>, r')) \<and>
           (\<forall>sw \<in> set (nodes (topo c)). \<forall>dst.
              (dst \<in> set (dests (topo c) sw) \<longrightarrow>
                 (\<exists>e. entries_for ts sw dst = [e] \<and>
                      entry_of (topo c) (active_flows c) (critical_flows c) sw e dst)) \<and>
              (dst \<notin> set (dests (topo c) sw) \<longrightarrow> entries_for ts sw dst = []))"
proof -
  from install_flows_tables[OF ok, of r] obtain ts r' where
    i: "install_flows c r = Some (Inr (c\<lparr>flow_tables := ts\<rparr>, r'))"
    and a: "\<forall>sw \<in> set (nodes (topo c)). \<exists>es. map_of ts sw = Some es \<and>
              list_all2 (entry_of (topo c) (active_flows c) (critical_flows c) sw) es
                (dests (topo c) sw)" by blast
  have k: "match_dst e = dst"
    if "entry_of (topo c) (active_flows c) (critical_flows c) sw e dst" for e dst sw
    using that build_entry_fields(1) by (auto simp: entry_of_def built_def)
  have "(dst \<in> set (dests (topo c) sw) \<longrightarrow>
           (\<exists>e. entries_for ts sw dst = [e] \<and>
                entry_of (topo c) (active_flows c) (critical_flows c) sw e dst)) \<and>
        (dst \<notin> set (dests (topo c) sw) \<longrightarrow> entries_for ts sw dst = [])"
    if sw: "sw \<in> set (nodes (topo c))" for sw dst
  proof -
    from a sw obtain es where m: "map_of ts sw = Some es"
      and l: "list_all2 (entry_of (topo c) (active_flows c) (critical_flows c) sw) es
              (dests (topo c) sw)" by blast
    have d: "distinct (dests (topo c) sw)"
      using graph_ok_distinct[OF ok] by (simp add: dests_def)
    from filter_key_unique[where d = dst, OF l d k] show ?thesis
      by (simp add: entries_for_def m)
  qed
  with i show ?thesis by blast
qed

lemma entry_of_fields:
  assumes "entry_of g flows crit sw e dst"
  shows "\<exists>hops. compute_equal_cost_next_hops g sw dst (sp_dist g sw) = Inr hops \<and>
                set (action e) = set hops"
    and "priority e = (if \<exists>f \<in> set flows. snd f = dst then High else Normal)"
    and "backup e =
           (if (\<exists>f \<in> set flows. f \<in> crit) \<and> length (action e) > 1
            then Some (drop 1 (action e)) else None)"
proof -
  from assms obtain rr r' where
    e: "build_entry g flows crit sw (sp_dist g sw) dst rr = Inr (e, r')"
    by (auto simp: entry_of_def built_def)
  from build_entry_fields(2)[OF e] obtain hops where
    "compute_equal_cost_next_hops g sw dst (sp_dist g sw) = Inr hops"
    "mset (action e) = mset hops" by blast
  then show "\<exists>hops. compute_equal_cost_next_hops g sw dst (sp_dist g sw) = Inr hops \<and>
                set (action e) = set hops"
    using mset_eq_setD by blast
  show "priority e = (if \<exists>f \<in> set flows. snd f = dst then High else Normal)"
    by (rule build_entry_fields(3)[OF e])
  show "backup e =
           (if (\<exists>f \<in> set flows. f \<in> crit) \<and> length (action e) > 1
            then Some (drop 1 (action e)) else None)"
    by (rule build_entry_fields(4)[OF e])
qed

text \<open>The list that \<open>compute_equal_cost_next_hops\<close> returns, as a set of neighbours.\<close>

lemma next_hops_set:
  assumes ok: "graph_ok g" and r: "compute_equal_cost_next_hops g sw dst dist = Inr hops"
  shows "set hops =
          {v. \<exists>w. weight_of g sw v = Some w \<and>
                  pn_add (dist_get dist v) w = Inr (dist_get dist dst)}"
proof (rule set_eqI)
  fix v
  from r have h: "hops = map fst (filter (\<lambda>(v, w). pn_add (dist_get dist v) w =
                                          Inr (dist_get dist dst)) (neighbors g sw))"
    unfolding compute_equal_cost_next_hops_def next_hops_loop_eq
    by (simp split: if_splits)
  have "v \<in> set hops \<longleftrightarrow>
        (\<exists>w. (v, w) \<in> set (neighbors g sw) \<and>
             pn_add (dist_get dist v) w = Inr (dist_get dist dst))"
    unfolding h by force
  also have "\<dots> \<longleftrightarrow>
        (\<exists>w. weight_of g sw v = Some w \<and> pn_add (dist_get dist v) w = Inr (dist_get dist dst))"
    using graph_ok_nbrs(1)[OF ok] weight_of_nbrs by blast
  finally show "v \<in> set hops \<longleftrightarrow>
        v \<in> {v. \<exists>w. weight_of g sw v = Some w \<and>
                    pn_add (dist_get dist v) w = Inr (dist_get dist dst)}" by simp
qed

text \<open>
  What \<open>install_flows\<close> does about backups: the single entry for a reachable destination
  has a backup exactly when some active flow, to whatever destination, is critical and the
  action list has more than one element; the backup is then the action list without its
  first element.
\<close>

lemma install_flows_backup:
  assumes "graph_ok (topo c)" "sw \<in> set (nodes (topo c))" "dst \<in> set (nodes (topo c))"
    "dst \<noteq> sw" "\<exists>p. path_between (topo c) sw dst p"
  shows "\<exists>c' r' e. install_flows c r = Some (Inr (c', r')) \<and>
           entries_for (flow_tables c') sw dst = [e] \<and>
           backup e =
             (if (\<exists>f \<in> set (active_flows c). f \<in> critical_flows c) \<and> length (action e) > 1
              then Some (drop 1 (action e)) else None)"
proof -
  from dests_iff[OF assms(1,2), of dst] assms(3,4,5) have d: "dst \<in> set (dests (topo c) sw)"
    by simp
  from install_flows_entry[OF assms(1), of r] assms(2) d obtain ts r' e where
    i: "install_flows c r = Some (Inr (c\<lparr>flow_tables := ts\<rparr>, r'))"
    and e: "entries_for ts sw dst = [e]"
       "entry_of (topo c) (active_flows c) (critical_flows c) sw e dst" by blast
  from i e(1) entry_of_fields(3)[OF e(2)] show ?thesis
    by (intro exI[of _ "c\<lparr>flow_tables := ts\<rparr>"] exI[of _ r'] exI[of _ e]) simp
qed

section \<open>Symmetry of the adjacency structure\<close>

text \<open>
  Claim C6.  Every sequence of \<open>add_node\<close>, \<open>remove_node\<close>, \<open>add_link\<close> and
  \<open>remove_link\<close> applied to the empty topology runs without error and leaves the adjacency
  structure symmetric: whenever \<open>adj[u][v] = w\<close> then \<open>adj[v][u] = w\<close>.  In the topology
  reached, \<open>remove_node(n)\<close> succeeds for every \<open>n\<close>; afterwards \<open>n\<close> is not a node
  and no remaining node has \<open>n\<close> among its neighbours.
\<close>

theorem topology_symmetric:
  "\<exists>g. run_ops [] ops = Inr g \<and> symmetric g \<and>
       (\<forall>n. \<exists>g'. remove_node g n = Inr g' \<and> symmetric g' \<and> n \<notin> set (nodes g') \<and>
                 (\<forall>u \<in> set (nodes g'). n \<notin> fst ` set (neighbors g' u)))"
proof -
  from run_ops_ok[OF topo_inv_empty, of ops] obtain g where
    g: "run_ops [] ops = Inr g" "topo_inv g" by blast
  have "\<exists>g'. remove_node g n = Inr g' \<and> symmetric g' \<and> n \<notin> set (nodes g') \<and>
                 (\<forall>u \<in> set (nodes g'). n \<notin> fst ` set (neighbors g' u))" for n
  proof -
    from remove_node_ok[OF g(2), of n] obtain g' where
      g': "remove_node g n = Inr g'" "topo_inv g'" "n \<notin> set (nodes g')"
          "\<forall>u. weight_of g' u n = None" by blast
    from g'(4) have "\<forall>u \<in> set (nodes g'). n \<notin> fst ` set (neighbors g' u)"
      using no_reference by blast
    with g'(1,2,3) show ?thesis by (auto simp: topo_inv_def)
  qed
  with g show ?thesis by (auto simp: topo_inv_def)
qed

theorem topology_symmetric_witness:
  "\<exists>g. run_ops [] ops_example = Inr g \<and>
       weight_of g ''S2'' ''S3'' = Some 2 \<and> weight_of g ''S3'' ''S2'' = Some 2 \<and>
       (\<exists>g'. remove_node g ''S2'' = Inr g' \<and> ''S1'' \<in> set (nodes g') \<and>
             ''S2'' \<notin> set (nodes g') \<and> ''S2'' \<notin> fst ` set (neighbors g' ''S1''))"
proof -
  from topology_symmetric[of ops_example] obtain g where
    run: "run_ops [] ops_example = Inr g" and sym: "symmetric g"
    and rem: "\<forall>n. \<exists>g'. remove_node g n = Inr g' \<and> symmetric g' \<and> n \<notin> set (nodes g') \<and>
                 (\<forall>u \<in> set (nodes g'). n \<notin> fst ` set (neighbors g' u))" by blast
  have ev: "run_ops [] ops_example =
      Inr [(''S1'', [(''S2'', 1)]), (''S2'', [(''S1'', 1), (''S3'', 2)]), (''S3'', [(''S2'', 2)])]"
    by code_simp
  with run have geq:
    "g = [(''S1'', [(''S2'', 1)]), (''S2'', [(''S1'', 1), (''S3'', 2)]), (''S3'', [(''S2'', 2)])]"
    by simp
  have w: "weight_of g ''S2'' ''S3'' = Some 2" unfolding geq by code_simp
  from sym w have w': "weight_of g ''S3'' ''S2'' = Some 2" by (rule symmetric_keys)
  from rem obtain g' where g': "remove_node g ''S2'' = Inr g'" "''S2'' \<notin> set (nodes g')"
    "\<forall>u \<in> set (nodes g'). ''S2'' \<notin> fst ` set (neighbors g' u)" by blast
  have "remove_node g ''S2'' = Inr [(''S1'', []), (''S3'', [])]" unfolding geq by code_simp
  with g'(1) have "g' = [(''S1'', []), (''S3'', [])]" by simp
  then have s1: "''S1'' \<in> set (nodes g')" by (simp add: nodes_def)
  with g'(3) have "''S2'' \<notin> fst ` set (neighbors g' ''S1'')" by blast
  with run w w' g'(1,2) s1 show ?thesis by blast
qed

section \<open>Shortest-path fixpoint\<close>

text \<open>
  Claim C7.  On a well-formed topology \<open>compute_shortest_paths\<close> returns for every
  source, and the distance map it returns is a fixpoint of relaxation: for every link
  \<open>(a, b)\<close> of weight \<open>w\<close> (stored in both directions), \<open>dist[b] \<le> dist[a] + w\<close> and
  \<open>dist[a] \<le> dist[b] + w\<close>.
\<close>

theorem shortest_paths_fixpoint:
  assumes "graph_ok g"
  shows "\<exists>dist prev. compute_shortest_paths g s = Some (Inr (dist, prev)) \<and>
           (\<forall>a b w. weight_of g a b = Some w \<and> weight_of g b a = Some w \<longrightarrow>
              (\<exists>da db. dist a = Some da \<and> dist b = Some db \<and>
                 pn_le db (ext_add da w) \<and> pn_le da (ext_add db w)))"
proof -
  from compute_shortest_paths_total[OF assms, of s] obtain dist prev where
    sp: "compute_shortest_paths g s = Some (Inr (dist, prev))"
    and inv: "sp_inv g s (dist, prev, [])" by blast
  from inv have base: "sp_base g s dist prev []" and rel: "sp_relaxed g dist [] s []"
    by (simp_all add: sp_inv_def)
  have one: "\<exists>da db. dist a = Some da \<and> dist b = Some db \<and> pn_le db (ext_add da w)"
    if e: "weight_of g a b = Some w" for a b w
  proof -
    from e have "a \<in> set (nodes g)"
      by (auto simp: weight_of_def nodes_def split: option.splits dest: map_of_SomeD
               intro: rev_image_eqI)
    moreover from graph_ok_edge(1)[OF assms e] have "b \<in> set (nodes g)" .
    ultimately obtain da db where d: "dist a = Some da" "dist b = Some db"
      using sp_base_facts(1)[OF base] by blast
    show ?thesis
    proof (cases da)
      case PInf
      with d show ?thesis by (simp add: pn_le_def)
    next
      case (Fin k)
      with d have "dist a = Some (Fin k)" by simp
      from sp_relaxedD[OF rel this _ e] d(2) obtain k' where "db = Fin k'" "k' \<le> k + w"
        by auto
      with d Fin show ?thesis by (simp add: pn_le_def)
    qed
  qed
  have "\<exists>da db. dist a = Some da \<and> dist b = Some db \<and>
          pn_le db (ext_add da w) \<and> pn_le da (ext_add db w)"
    if "weight_of g a b = Some w" "weight_of g b a = Some w" for a b w
    using one[OF that(1)] one[OF that(2)] by auto
  with sp show ?thesis by blast
qed

theorem shortest_paths_fixpoint_witness:
  "graph_ok topo_switches \<and>
   (\<exists>dist prev. compute_shortest_paths topo_switches ''S1'' = Some (Inr (dist, prev)) \<and>
      (\<forall>a b w. weight_of topo_switches a b = Some w \<and> weight_of topo_switches b a = Some w \<longrightarrow>
         (\<exists>da db. dist a = Some da \<and> dist b = Some db \<and>
            pn_le db (ext_add da w) \<and> pn_le da (ext_add db w))))"
proof -
  have h: "graph_ok topo_switches" by code_simp
  from shortest_paths_fixpoint[OF h, of "''S1''"] h show ?thesis by blast
qed

section \<open>Path query\<close>

text \<open>
  Claim C4.  For topology nodes \<open>src\<close> and \<open>dst\<close> of a well-formed topology,
  \<open>compute_path\<close> returns; the result is the unreachable value exactly when no path
  joins the two nodes (the shortest distance is infinite), and otherwise it is a node
  sequence from \<open>src\<close> to \<open>dst\<close> whose consecutive pairs are links and whose weight is
  the shortest distance.
\<close>

theorem compute_path_correct:
  assumes "graph_ok g" "src \<in> set (nodes g)" "dst \<in> set (nodes g)"
  shows "\<exists>r. compute_path g src dst = Some (Inr r) \<and>
             (r = None \<longleftrightarrow> shortest_dist g src dst PInf) \<and>
             (\<forall>p. r = Some p \<longrightarrow>
                  path_between g src dst p \<and> shortest_dist g src dst (Fin (path_weight g p)))"
proof -
  from compute_shortest_paths_total[OF assms(1), of src] obtain dist prev where
    sp: "compute_shortest_paths g src = Some (Inr (dist, prev))"
    and inv: "sp_inv g src (dist, prev, [])" by blast
  from inv have base: "sp_base g src dist prev []" and tree: "sp_tree g dist prev"
    by (simp_all add: sp_inv_def)
  from sp_base_facts(1)[OF base] assms(3) obtain x where dx: "dist dst = Some x" by blast
  note sd = final_shortest[OF assms(1) inv assms(2) dx]
  show ?thesis
  proof (cases x)
    case PInf
    with sp dx have "compute_path g src dst = Some (Inr None)"
      by (simp add: compute_path_def)
    with sd PInf show ?thesis by simp
  next
    case (Fin k)
    with dx have dk: "dist dst = Some (Fin k)" by simp
    from walk_back_reach[OF base tree assms(2) reach_fin[OF base dk], of "[]"] obtain q where
      q: "walk_back prev (Some dst) [] = Some (Inr q)"
         "path_between g src dst (rev q)" "dist dst = Some (Fin (path_weight g (rev q)))"
      by auto
    from sp dx Fin q(1) have "compute_path g src dst = Some (Inr (Some (rev q)))"
      by (simp add: compute_path_def)
    moreover from q(3) dk sd Fin have "shortest_dist g src dst (Fin (path_weight g (rev q)))"
      by simp
    moreover from this have "\<not> shortest_dist g src dst PInf"
      using shortest_dist_unique by blast
    ultimately show ?thesis using q(2) by simp
  qed
qed

theorem compute_path_correct_witness:
  "graph_ok topo_switches \<and> ''S1'' \<in> set (nodes topo_switches) \<and>
   ''S4'' \<in> set (nodes topo_switches) \<and>
   (\<exists>r. compute_path topo_switches ''S1'' ''S4'' = Some (Inr r) \<and>
        (r = None \<longleftrightarrow> shortest_dist topo_switches ''S1'' ''S4'' PInf) \<and>
        (\<forall>p. r = Some p \<longrightarrow>
             path_between topo_switches ''S1'' ''S4'' p \<and>
             shortest_dist topo_switches ''S1'' ''S4'' (Fin (path_weight topo_switches p))))"
proof -
  have h1: "graph_ok topo_switches" by code_simp
  have h2: "''S1'' \<in> set (nodes topo_switches)" by code_simp
  have h3: "''S4'' \<in> set (nodes topo_switches)" by code_simp
  from compute_path_correct[OF h1 h2 h3] h1 h2 h3 show ?thesis by blast
qed

section \<open>Priority escalation\<close>

text \<open>
  Claim C2.  On a well-formed topology \<open>install_flows\<close> returns, and for every switch
  \<open>sw\<close> and every reachable destination \<open>dst \<noteq> sw\<close> the table of \<open>sw\<close> holds exactly one
  entry for \<open>dst\<close>; its priority is high if and only if some active flow has destination
  \<open>dst\<close>, and normal otherwise.
\<close>

theorem priority_high_iff_active:
  assumes "graph_ok (topo c)" "sw \<in> set (nodes (topo c))" "dst \<in> set (nodes (topo c))"
    "dst \<noteq> sw" "\<exists>p. path_between (topo c) sw dst p"
  shows "\<exists>c' r' e. install_flows c r = Some (Inr (c', r')) \<and>
           entries_for (flow_tables c') sw dst = [e] \<and>
           (priority e = High \<longleftrightarrow> (\<exists>f \<in> set (active_flows c). snd f = dst)) \<and>
           (priority e = Normal \<longleftrightarrow> \<not> (\<exists>f \<in> set (active_flows c). snd f = dst))"
proof -
  from dests_iff[OF assms(1,2), of dst] assms(3,4,5) have d: "dst \<in> set (dests (topo c) sw)"
    by simp
  from install_flows_entry[OF assms(1), of r] assms(2) d obtain ts r' e where
    i: "install_flows c r = Some (Inr (c\<lparr>flow_tables := ts\<rparr>, r'))"
    and e: "entries_for ts sw dst = [e]"
       "entry_of (topo c) (active_flows c) (critical_flows c) sw e dst" by blast
  from entry_of_fields(2)[OF e(2)] have
    "(priority e = High \<longleftrightarrow> (\<exists>f \<in> set (active_flows c). snd f = dst)) \<and>
     (priority e = Normal \<longleftrightarrow> \<not> (\<exists>f \<in> set (active_flows c). snd f = dst))" by simp
  with i e(1) show ?thesis by (intro exI[of _ "c\<lparr>flow_tables := ts\<rparr>"] exI[of _ r'] exI[of _ e]) simp
qed

theorem priority_high_iff_active_witness:
  "graph_ok (topo ctrl_example) \<and> ''S1'' \<in> set (nodes (topo ctrl_example)) \<and>
   ''H2'' \<in> set (nodes (topo ctrl_example)) \<and> ''H2'' \<noteq> ''S1'' \<and>
   (\<exists>p. path_between (topo ctrl_example) ''S1'' ''H2'' p) \<and>
   (\<exists>c' r' e. install_flows ctrl_example rng0 = Some (Inr (c', r')) \<and>
      entries_for (flow_tables c') ''S1'' ''H2'' = [e] \<and>
      (priority e = High \<longleftrightarrow> (\<exists>f \<in> set (active_flows ctrl_example). snd f = ''H2'')) \<and>
      (priority e = Normal \<longleftrightarrow> \<not> (\<exists>f \<in> set (active_flows ctrl_example). snd f = ''H2'')))"
proof -
  have h1: "graph_ok (topo ctrl_example)" by code_simp
  have h2: "''S1'' \<in> set (nodes (topo ctrl_example))" by code_simp
  have h3: "''H2'' \<in> set (nodes (topo ctrl_example))" by code_simp
  have h4: "''H2'' \<noteq> ''S1''" by simp
  have "path_between (topo ctrl_example) ''S1'' ''H2'' [''S1'', ''S2'', ''H2'']" by code_simp
  then have h5: "\<exists>p. path_between (topo ctrl_example) ''S1'' ''H2'' p" ..
  from priority_high_iff_active[OF h1 h2 h3 h4 h5, of rng0] h1 h2 h3 h4 h5
  show ?thesis by blast
qed

section \<open>Next-hop sets\<close>

text \<open>
  What the synthesizer computes: the action list of the entry for a reachable \<open>dst \<noteq> sw\<close>,
  as a set, is the set of neighbours \<open>v\<close> of \<open>sw\<close> that pass the test
  \<open>dist[v] + weight(sw, v) = dist[dst]\<close> in the map computed with source \<open>sw\<close>.
\<close>

lemma install_flows_action:
  assumes "graph_ok (topo c)" "sw \<in> set (nodes (topo c))" "dst \<in> set (nodes (topo c))"
    "dst \<noteq> sw" "\<exists>p. path_between (topo c) sw dst p"
  shows "\<exists>c' r' e dist prev. install_flows c r = Some (Inr (c', r')) \<and>
           entries_for (flow_tables c') sw dst = [e] \<and>
           compute_shortest_paths (topo c) sw = Some (Inr (dist, prev)) \<and>
           (\<forall>v \<in> set (nodes (topo c)). \<exists>x. dist v = Some x \<and> shortest_dist (topo c) sw v x) \<and>
           set (action e) =
             {v. \<exists>w. weight_of (topo c) sw v = Some w \<and>
                     pn_add (dist_get dist v) w = Inr (dist_get dist dst)}"
proof -
  let ?g = "topo c"
  from dests_iff[OF assms(1,2), of dst] assms(3,4,5) have d: "dst \<in> set (dests ?g sw)"
    by simp
  from install_flows_entry[OF assms(1), of r] assms(2) d obtain ts r' e where
    i: "install_flows c r = Some (Inr (c\<lparr>flow_tables := ts\<rparr>, r'))"
    and e: "entries_for ts sw dst = [e]"
       "entry_of ?g (active_flows c) (critical_flows c) sw e dst" by blast
  from compute_shortest_paths_total[OF assms(1), of sw] obtain dist prev where
    sp: "compute_shortest_paths ?g sw = Some (Inr (dist, prev))" by blast
  note eq = sp_dist_eq[OF sp]
  have sh: "\<forall>v \<in> set (nodes ?g). \<exists>x. dist v = Some x \<and> shortest_dist ?g sw v x"
    using sp_dist_shortest[OF assms(1,2)] eq by simp
  from entry_of_fields(1)[OF e(2)] obtain hops where
    h: "compute_equal_cost_next_hops ?g sw dst (sp_dist ?g sw) = Inr hops"
       "set (action e) = set hops" by blast
  from next_hops_set[OF assms(1) h(1)] h(2) eq have
    "set (action e) =
       {v. \<exists>w. weight_of ?g sw v = Some w \<and>
               pn_add (dist_get dist v) w = Inr (dist_get dist dst)}"
    by simp
  with i e(1) sp sh show ?thesis
    by (intro exI[of _ "c\<lparr>flow_tables := ts\<rparr>"] exI[of _ r'] exI[of _ e] exI[of _ dist]
          exI[of _ prev]) simp
qed

text \<open>
  Claim C3 calls that set the ECMP next-hop set, the neighbours that begin a shortest path
  from \<open>sw\<close> to \<open>dst\<close>.  The test adds the distance from \<open>sw\<close> to the neighbour where the
  distance from the neighbour to \<open>dst\<close> is needed, so the set is a different one.  On the
  start-up topology the shortest path from S1 to its neighbour S2 is the link itself, yet
  the entry of S1 for S2 has no next hop at all, and the entry of S1 for S4 lists the host
  H1, whose only link leads back to S1.
\<close>

theorem next_hops_miss_shortest_paths:
  "result_of (new_controller topo_main rng0) \<noteq> None \<and>
   compute_path topo_main ''S1'' ''S2'' = Some (Inr (Some [''S1'', ''S2''])) \<and>
   map action (entries_for (flow_tables (the (result_of (new_controller topo_main rng0))))
                 ''S1'' ''S2'') = [[]] \<and>
   neighbors topo_main ''H1'' = [(''S1'', 1)] \<and>
   map action (entries_for (flow_tables (the (result_of (new_controller topo_main rng0))))
                 ''S1'' ''S4'') = [[''S3'', ''H1'', ''S2'']]"
  by code_simp

section \<open>Repeated rebuilds\<close>

text \<open>
  Claim C9.  With topology, active flows and critical flows unchanged, two successive
  calls of \<open>install_flows\<close> give, for every switch and destination, entries with the same
  action set and the same priority (the shuffle may order the actions differently).
\<close>

theorem install_flows_repeatable:
  assumes "graph_ok (topo c)"
  shows "\<exists>c1 r1 c2 r2. install_flows c r = Some (Inr (c1, r1)) \<and>
           install_flows c1 r1 = Some (Inr (c2, r2)) \<and>
           topo c1 = topo c \<and> active_flows c1 = active_flows c \<and>
           critical_flows c1 = critical_flows c \<and>
           (\<forall>sw dst. map (\<lambda>e. (set (action e), priority e)) (entries_for (flow_tables c1) sw dst)
                   = map (\<lambda>e. (set (action e), priority e)) (entries_for (flow_tables c2) sw dst))"
proof -
  let ?g = "topo c"
  from install_flows_entry[OF assms, of r] obtain ts1 r1 where
    i1: "install_flows c r = Some (Inr (c\<lparr>flow_tables := ts1\<rparr>, r1))"
    and a1: "\<forall>sw \<in> set (nodes ?g). \<forall>dst.
              (dst \<in> set (dests ?g sw) \<longrightarrow>
                 (\<exists>e. entries_for ts1 sw dst = [e] \<and>
                      entry_of ?g (active_flows c) (critical_flows c) sw e dst)) \<and>
              (dst \<notin> set (dests ?g sw) \<longrightarrow> entries_for ts1 sw dst = [])" by blast
  let ?c1 = "c\<lparr>flow_tables := ts1\<rparr>"
  have ok1: "graph_ok (topo ?c1)" using assms by simp
  from install_flows_entry[OF ok1, of r1, simplified] obtain ts2 r2 where
    i2: "install_flows ?c1 r1 = Some (Inr (c\<lparr>flow_tables := ts2\<rparr>, r2))"
    and a2: "\<forall>sw \<in> set (nodes ?g). \<forall>dst.
              (dst \<in> set (dests ?g sw) \<longrightarrow>
                 (\<exists>e. entries_for ts2 sw dst = [e] \<and>
                      entry_of ?g (active_flows c) (critical_flows c) sw e dst)) \<and>
              (dst \<notin> set (dests ?g sw) \<longrightarrow> entries_for ts2 sw dst = [])" by blast
  from install_flows_keys[OF i1] have k1: "map fst ts1 = nodes ?g" by simp
  from install_flows_keys[OF i2] have k2: "map fst ts2 = nodes ?g" by simp
  have "map (\<lambda>e. (set (action e), priority e)) (entries_for ts1 sw dst)
      = map (\<lambda>e. (set (action e), priority e)) (entries_for ts2 sw dst)" for sw dst
  proof (cases "sw \<in> set (nodes ?g)")
    case False
    from False have "sw \<notin> fst ` set ts1" unfolding k1[symmetric] by simp
    then have "map_of ts1 sw = None" by (simp add: map_of_eq_None_iff)
    moreover from False have "sw \<notin> fst ` set ts2" unfolding k2[symmetric] by simp
    then have "map_of ts2 sw = None" by (simp add: map_of_eq_None_iff)
    ultimately show ?thesis by (simp add: entries_for_def)
  next
    case True
    show ?thesis
    proof (cases "dst \<in> set (dests ?g sw)")
      case d: True
      from a1 True d obtain e1 where e1: "entries_for ts1 sw dst = [e1]"
        "entry_of ?g (active_flows c) (critical_flows c) sw e1 dst" by blast
      from a2 True d obtain e2 where e2: "entries_for ts2 sw dst = [e2]"
        "entry_of ?g (active_flows c) (critical_flows c) sw e2 dst" by blast
      from entry_of_fields(1)[OF e1(2)] entry_of_fields(1)[OF e2(2)]
      have "set (action e1) = set (action e2)" by auto
      moreover from entry_of_fields(2)[OF e1(2)] entry_of_fields(2)[OF e2(2)]
      have "priority e1 = priority e2" by simp
      ultimately show ?thesis using e1(1) e2(1) by simp
    next
      case d: False
      with a1 a2 True show ?thesis by simp
    qed
  qed
  with i1 i2 show ?thesis
    by (intro exI[of _ ?c1] exI[of _ r1] exI[of _ "c\<lparr>flow_tables := ts2\<rparr>"] exI[of _ r2])
       simp
qed

theorem install_flows_repeatable_witness:
  "graph_ok (topo ctrl_example) \<and>
   (\<exists>c1 r1 c2 r2. install_flows ctrl_example rng0 = Some (Inr (c1, r1)) \<and>
      install_flows c1 r1 = Some (Inr (c2, r2)) \<and>
      topo c1 = topo ctrl_example \<and> active_flows c1 = active_flows ctrl_example \<and>
      critical_flows c1 = critical_flows ctrl_example \<and>
      (\<forall>sw dst. map (\<lambda>e. (set (action e), priority e)) (entries_for (flow_tables c1) sw dst)
              = map (\<lambda>e. (set (action e), priority e)) (entries_for (flow_tables c2) sw dst)))"
proof -
  have h1: "graph_ok (topo ctrl_example)" by code_simp
  show ?thesis by (intro conjI h1 install_flows_repeatable[OF h1])
qed

section \<open>Next hops towards an unreachable destination\<close>

text \<open>
  Claim C10, as stated, fails when a link weight is too large to convert to a float: with
  the link A-B of weight \<open>10^400\<close> and a map in which B and the destination are at infinite
  distance, \<open>compute_equal_cost_next_hops\<close> raises \<open>OverflowError\<close> where the claim has it
  return the list holding B.
\<close>

theorem next_hops_unreachable_counterexample:
  "dist_get [''A'' \<mapsto> Fin 0] ''C'' = PInf \<and>
   neighbors topo_heavy ''A'' = [(''B'', 10 ^ 400)] \<and>
   dist_get [''A'' \<mapsto> Fin 0] ''B'' = PInf \<and>
   compute_equal_cost_next_hops topo_heavy ''A'' ''C'' [''A'' \<mapsto> Fin 0] = Inl OverflowError"
  by code_simp

lemma pn_add_inf: "pn_add x w = Inr PInf \<longleftrightarrow> x = PInf \<and> fits_float w"
  by (cases x) auto

text \<open>
  Claim C10, amended.  Let the distance of \<open>dst\<close> in the given map be infinite (or missing).
  If some neighbour of \<open>sw\<close> at infinite distance has a link weight that does not convert
  to a float, \<open>compute_equal_cost_next_hops\<close> raises \<open>OverflowError\<close>; otherwise it returns
  exactly the neighbours of \<open>sw\<close> whose own distance is infinite, because infinity plus a
  weight is infinity, and that list is non-empty whenever \<open>sw\<close> has such a neighbour.  In
  the map computed with source \<open>sw\<close> on a well-formed topology no neighbour of \<open>sw\<close> is at
  infinite distance, so there the result is the empty list.
\<close>

theorem next_hops_unreachable:
  assumes "dist_get dist dst = PInf"
  shows "compute_equal_cost_next_hops g sw dst dist =
           (if \<exists>(v, w) \<in> set (neighbors g sw). dist_get dist v = PInf \<and> \<not> fits_float w
            then Inl OverflowError
            else Inr (map fst (filter (\<lambda>(v, w). dist_get dist v = PInf) (neighbors g sw)))) \<and>
         ((\<forall>(v, w) \<in> set (neighbors g sw). dist_get dist v = PInf \<longrightarrow> fits_float w) \<longrightarrow>
          (\<exists>vw \<in> set (neighbors g sw). dist_get dist (fst vw) = PInf) \<longrightarrow>
            (\<exists>hops. compute_equal_cost_next_hops g sw dst dist = Inr hops \<and> hops \<noteq> [])) \<and>
         (graph_ok g \<longrightarrow> dist_get (sp_dist g sw) dst = PInf \<longrightarrow>
            compute_equal_cost_next_hops g sw dst (sp_dist g sw) = Inr [])"
proof (intro conjI impI)
  let ?bad = "\<exists>(v, w) \<in> set (neighbors g sw). dist_get dist v = PInf \<and> \<not> fits_float w"
  have flt: "filter (\<lambda>(v, w). pn_add (dist_get dist v) w = Inr (dist_get dist dst)) nb =
             filter (\<lambda>(v, w). dist_get dist v = PInf) nb"
    if "\<not> (\<exists>(v, w) \<in> set nb. dist_get dist v = PInf \<and> \<not> fits_float w)" for nb
  proof (rule filter_cong[OF refl])
    fix vw assume m: "vw \<in> set nb"
    obtain v w where vw: "vw = (v, w)" by (cases vw)
    from that m vw have "dist_get dist v = PInf \<longrightarrow> fits_float w" by blast
    then show "(case vw of (v, w) \<Rightarrow> pn_add (dist_get dist v) w = Inr (dist_get dist dst)) =
               (case vw of (v, w) \<Rightarrow> dist_get dist v = PInf)"
      unfolding vw assms by (auto simp: pn_add_inf)
  qed
  show eq: "compute_equal_cost_next_hops g sw dst dist =
           (if ?bad then Inl OverflowError
            else Inr (map fst (filter (\<lambda>(v, w). dist_get dist v = PInf) (neighbors g sw))))"
  proof (cases ?bad)
    case True
    then show ?thesis
      unfolding compute_equal_cost_next_hops_def next_hops_loop_eq by simp
  next
    case False
    from flt[OF False] False show ?thesis
      unfolding compute_equal_cost_next_hops_def next_hops_loop_eq by simp
  qed
  show "\<exists>hops. compute_equal_cost_next_hops g sw dst dist = Inr hops \<and> hops \<noteq> []"
    if fit: "\<forall>(v, w) \<in> set (neighbors g sw). dist_get dist v = PInf \<longrightarrow> fits_float w"
      and ex: "\<exists>vw \<in> set (neighbors g sw). dist_get dist (fst vw) = PInf"
  proof -
    from fit have nb: "\<not> ?bad" by blast
    from ex obtain vw where "vw \<in> set (neighbors g sw)" "dist_get dist (fst vw) = PInf"
      by blast
    then have "vw \<in> set (filter (\<lambda>(v, w). dist_get dist v = PInf) (neighbors g sw))"
      by (simp add: case_prod_beta)
    then have "filter (\<lambda>(v, w). dist_get dist v = PInf) (neighbors g sw) \<noteq> []"
      by (metis empty_iff list.set(1))
    with eq nb show ?thesis by simp
  qed
  show "compute_equal_cost_next_hops g sw dst (sp_dist g sw) = Inr []"
    if ok: "graph_ok g" and inf: "dist_get (sp_dist g sw) dst = PInf"
  proof -
    note nf = sp_dist_nbrs_finite[OF ok, of sw]
    have "filter (\<lambda>(v, w). pn_add (dist_get (sp_dist g sw) v) w =
                     Inr (dist_get (sp_dist g sw) dst)) (neighbors g sw) = []"
      unfolding filter_empty_conv inf
    proof
      fix vw assume m: "vw \<in> set (neighbors g sw)"
      obtain v w where vw: "vw = (v, w)" by (cases vw)
      from nf m vw have "dist_get (sp_dist g sw) v \<noteq> PInf" unfolding nbrs_finite_def by blast
      then show "\<not> (case vw of (v, w) \<Rightarrow> pn_add (dist_get (sp_dist g sw) v) w = Inr PInf)"
        unfolding vw by (simp add: pn_add_inf)
    qed
    then show ?thesis unfolding next_hops_finite[OF nf] by simp
  qed
qed

theorem next_hops_unreachable_witness:
  "dist_get (sp_dist topo_islands ''C'') ''E'' = PInf \<and>
   neighbors topo_islands ''A'' = [(''B'', 1)] \<and> fits_float 1 \<and>
   dist_get (sp_dist topo_islands ''C'') ''B'' = PInf \<and>
   graph_ok topo_islands \<and> dist_get (sp_dist topo_islands ''A'') ''E'' = PInf \<and>
   compute_equal_cost_next_hops topo_islands ''A'' ''E'' (sp_dist topo_islands ''C'')
     = Inr [''B''] \<and>
   compute_equal_cost_next_hops topo_islands ''A'' ''E'' (sp_dist topo_islands ''A'') = Inr []"
proof -
  have h: "dist_get (sp_dist topo_islands ''C'') ''E'' = PInf" by code_simp
  have nb: "neighbors topo_islands ''A'' = [(''B'', 1)]" by code_simp
  have b: "dist_get (sp_dist topo_islands ''C'') ''B'' = PInf" by code_simp
  have f: "fits_float 1" by code_simp
  have ok: "graph_ok topo_islands" by code_simp
  have h2: "dist_get (sp_dist topo_islands ''A'') ''E'' = PInf" by code_simp
  note t = next_hops_unreachable[OF h, of topo_islands "''A''"]
  have nbad: "\<not> (\<exists>(v, w) \<in> set (neighbors topo_islands ''A'').
       dist_get (sp_dist topo_islands ''C'') v = PInf \<and> \<not> fits_float w)"
    unfolding nb using f by simp
  from t nbad have
    "compute_equal_cost_next_hops topo_islands ''A'' ''E'' (sp_dist topo_islands ''C'')
     = Inr (map fst (filter (\<lambda>(v, w). dist_get (sp_dist topo_islands ''C'') v = PInf)
                       (neighbors topo_islands ''A'')))" by simp
  then have c1:
    "compute_equal_cost_next_hops topo_islands ''A'' ''E'' (sp_dist topo_islands ''C'')
     = Inr [''B'']" unfolding nb using b by simp
  from t ok h2 have c3:
    "compute_equal_cost_next_hops topo_islands ''A'' ''E'' (sp_dist topo_islands ''A'') = Inr []"
    by blast
  show ?thesis by (intro conjI h nb f b ok h2 c1 c3)
qed

section \<open>Queries about unknown nodes\<close>

text \<open>
  Claim C5 says that \<open>compute_path\<close> never fails, also for identifiers that are not
  nodes.  The code reads \<open>dist[dst]\<close> and \<open>prev[cur]\<close> without a default: a destination
  that is not a node raises \<open>KeyError\<close>, and so does a source that is not a node when it
  is queried against itself.
\<close>

theorem compute_path_unknown_node:
  "compute_path topo_main ''S1'' ''S9'' = Some (Inl KeyError) \<and>
   compute_path topo_main ''S9'' ''S9'' = Some (Inl KeyError)"
  by code_simp

section \<open>Backup next hops\<close>

text \<open>
  Claim C1 ties the backup field of the entry for \<open>dst\<close> to an active critical flow with
  destination \<open>dst\<close>.  The loop that sets the field does not compare the flow's
  destination with \<open>dst\<close> (the priority loop above it does).  On the start-up topology
  with the critical flow H2 to S4 injected, the only active flow has destination S4, yet
  the entry of switch S4 for destination S1 carries a backup.
\<close>

theorem backup_for_other_destination:
  "result_of (critical_flow_scenario rng0) \<noteq> None \<and>
   active_flows (the (result_of (critical_flow_scenario rng0))) = [(''H2'', ''S4'')] \<and>
   map backup (entries_for (flow_tables (the (result_of (critical_flow_scenario rng0))))
                 ''S4'' ''S1'') = [Some [''S2'']]"
  by code_simp

section \<open>Reconfiguration scenario\<close>







end
